theory Spec2Isabelle
  imports Complex_Main
begin

section \<open>Common Python notions\<close>

text \<open>
  Exceptions of the scripts are values: a computation returns \<open>Inl e\<close> where the
  Python raises \<open>e\<close>, and \<open>Inr v\<close> where it returns \<open>v\<close>.
\<close>

datatype errno = EEXIST | ENOENT | ENOTDIR

datatype py_error = KeyError | ValueError | IndexError | TypeError | OverflowError | OSError errno

subsection \<open>\<open>str\<close> of an integer and the \<open>%06d\<close> format\<close>

definition digit_char :: "nat \<Rightarrow> char" where
  "digit_char d = ''0123456789'' ! d"

function str_nat :: "nat \<Rightarrow> string" where
  "str_nat n = (if n < 10 then [digit_char n] else str_nat (n div 10) @ [digit_char (n mod 10)])"
  by pat_completeness auto
termination
  by (relation "measure (\<lambda>n. n)") auto

declare str_nat.simps [simp del]

definition str_int :: "int \<Rightarrow> string" where
  "str_int i = (if i < 0 then CHR ''-'' # str_nat (nat (- i)) else str_nat (nat i))"

definition zfill :: "nat \<Rightarrow> string \<Rightarrow> string" where
  "zfill w s = replicate (w - length s) CHR ''0'' @ s"

text \<open>\<open>"%06d" % i\<close>: at least six characters, the sign counted, padded with zeros after it.\<close>

definition fmt_06d :: "int \<Rightarrow> string" where
  "fmt_06d i = (if i < 0 then CHR ''-'' # zfill 5 (str_nat (nat (- i))) else zfill 6 (str_nat (nat i)))"

subsection \<open>\<open>os.path.join\<close> of two components (posixpath)\<close>

definition path_join :: "string \<Rightarrow> string \<Rightarrow> string" where
  "path_join a b =
     (if b \<noteq> [] \<and> hd b = CHR ''/'' then b
      else if a = [] \<or> last a = CHR ''/'' then a @ b
      else a @ ''/'' @ b)"

section \<open>Python floats\<close>

text \<open>
  A Python float is an IEEE 754 binary64 number: \<open>Finite r\<close> is the finite number of value
  \<open>r\<close> (the positive zero for \<open>r = 0\<close>), \<open>NegZero\<close> the negative zero. The results of
  the operations below are rounded to the nearest binary64 number, ties to the even
  significand, as the hardware does. The floats of \<open>get_segments_scp.py\<close> and of the
  vector-quantisation reference of \<open>test_tflego.py\<close> are of this type.
\<close>

datatype pyfloat = Finite real | NegZero | PosInf | NegInf | NaN

definition float_val :: "pyfloat \<Rightarrow> real" where
  "float_val a = (case a of Finite r \<Rightarrow> r | _ \<Rightarrow> 0)"

definition is_nan :: "pyfloat \<Rightarrow> bool" where
  "is_nan a = (a = NaN)"

definition is_inf :: "pyfloat \<Rightarrow> bool" where
  "is_inf a = (a = PosInf \<or> a = NegInf)"

definition is_zero :: "pyfloat \<Rightarrow> bool" where
  "is_zero a = (a = Finite 0 \<or> a = NegZero)"

definition sign_bit :: "pyfloat \<Rightarrow> bool" where
  "sign_bit a = (case a of Finite r \<Rightarrow> r < 0 | NegZero \<Rightarrow> True | NegInf \<Rightarrow> True | _ \<Rightarrow> False)"

subsection \<open>Rounding a real to binary64\<close>

text \<open>
  \<open>bit_length n\<close> is the number of binary digits of \<open>n\<close>, \<open>pow2 e\<close> is \<open>2\<close> to the power
  \<open>e\<close>, and \<open>float_exponent x\<close> is the exponent \<open>e\<close> with \<open>2^e \<le> |x| < 2^(e+1)\<close> of a
  real \<open>x\<close> other than \<open>0\<close>.
\<close>

function bit_length :: "nat \<Rightarrow> nat" where
  "bit_length n = (if n = 0 then 0 else Suc (bit_length (n div 2)))"
  by pat_completeness auto
termination
  by (relation "measure (\<lambda>n. n)") auto

declare bit_length.simps [simp del]

definition pow2 :: "int \<Rightarrow> real" where
  "pow2 e = (if 0 \<le> e then 2 ^ nat e else 1 / 2 ^ nat (- e))"

definition float_exponent :: "real \<Rightarrow> int" where
  "float_exponent x =
     (if 1 \<le> \<bar>x\<bar> then int (bit_length (nat \<lfloor>\<bar>x\<bar>\<rfloor>)) - 1
      else - int (bit_length (nat (\<lceil>1 / \<bar>x\<bar>\<rceil> - 1))))"

definition round_half_even :: "real \<Rightarrow> int" where
  "round_half_even q =
     (let f = \<lfloor>q\<rfloor>; d = q - of_int f
      in if d < 1 / 2 then f else if 1 / 2 < d then f + 1 else if even f then f else f + 1)"

text \<open>
  The binary64 numbers with exponent \<open>e\<close> are the multiples of \<open>2^(e - 52)\<close>; below
  \<open>2^(-1022)\<close> (the subnormal numbers) they are the multiples of \<open>2^(-1074)\<close>.
  \<open>rounded x\<close> is the multiple nearest to \<open>x\<close>. A real is rounded to it; a result of
  magnitude \<open>2^1024\<close> is an infinity, and a result that is zero keeps the sign of the real.
\<close>

definition rounded :: "real \<Rightarrow> real" where
  "rounded x =
     (let e = max (float_exponent x) (- 1022);
          ulp = pow2 (e - 52)
      in of_int (round_half_even (x / ulp)) * ulp)"

definition binary64 :: "real \<Rightarrow> pyfloat" where
  "binary64 x =
     (if x = 0 then Finite 0
      else
        let y = rounded x
        in if pow2 1024 \<le> \<bar>y\<bar> then (if 0 < x then PosInf else NegInf)
           else if y = 0 then (if 0 < x then Finite 0 else NegZero)
           else Finite y)"

subsection \<open>Arithmetic and comparison\<close>

definition float_neg :: "pyfloat \<Rightarrow> pyfloat" where
  "float_neg a =
     (case a of
        Finite r \<Rightarrow> if r = 0 then NegZero else Finite (- r)
      | NegZero \<Rightarrow> Finite 0
      | PosInf \<Rightarrow> NegInf
      | NegInf \<Rightarrow> PosInf
      | NaN \<Rightarrow> NaN)"

definition float_add :: "pyfloat \<Rightarrow> pyfloat \<Rightarrow> pyfloat" where
  "float_add a b =
     (if is_nan a \<or> is_nan b then NaN
      else if is_inf a then (if is_inf b \<and> a \<noteq> b then NaN else a)
      else if is_inf b then b
      else
        let s = float_val a + float_val b
        in if s = 0 then (if a = NegZero \<and> b = NegZero then NegZero else Finite 0)
           else binary64 s)"

definition float_sub :: "pyfloat \<Rightarrow> pyfloat \<Rightarrow> pyfloat" where
  "float_sub a b = float_add a (float_neg b)"

definition float_mul :: "pyfloat \<Rightarrow> pyfloat \<Rightarrow> pyfloat" where
  "float_mul a b =
     (if is_nan a \<or> is_nan b then NaN
      else if is_inf a \<or> is_inf b then
        (if is_zero a \<or> is_zero b then NaN
         else if sign_bit a \<noteq> sign_bit b then NegInf else PosInf)
      else
        let p = float_val a * float_val b
        in if p = 0 then (if sign_bit a \<noteq> sign_bit b then NegZero else Finite 0)
           else binary64 p)"

definition float_sqrt :: "pyfloat \<Rightarrow> pyfloat" where
  "float_sqrt a =
     (case a of
        Finite r \<Rightarrow> if r < 0 then NaN else if r = 0 then Finite 0 else binary64 (sqrt r)
      | NegZero \<Rightarrow> NegZero
      | PosInf \<Rightarrow> PosInf
      | NegInf \<Rightarrow> NaN
      | NaN \<Rightarrow> NaN)"

text \<open>
  The comparisons \<open><\<close>, \<open>==\<close> and \<open>>=\<close>: false whenever an operand is a NaN; the two zeros
  are equal.
\<close>

definition float_lt :: "pyfloat \<Rightarrow> pyfloat \<Rightarrow> bool" where
  "float_lt a b =
     (\<not> is_nan a \<and> \<not> is_nan b \<and> a \<noteq> PosInf \<and> b \<noteq> NegInf \<and>
      (a = NegInf \<or> b = PosInf \<or> float_val a < float_val b))"

definition float_eq :: "pyfloat \<Rightarrow> pyfloat \<Rightarrow> bool" where
  "float_eq a b =
     (\<not> is_nan a \<and> \<not> is_nan b \<and>
      (if is_inf a \<or> is_inf b then a = b else float_val a = float_val b))"

definition float_ge :: "pyfloat \<Rightarrow> pyfloat \<Rightarrow> bool" where
  "float_ge a b = (float_lt b a \<or> float_eq a b)"

subsection \<open>Python numbers: \<open>==\<close>, \<open>float\<close>, \<open>round\<close> and \<open>int\<close>\<close>

text \<open>
  A time of \<open>get_segments_scp.py\<close> is the integer \<open>-1\<close> the script starts with or a float
  read from the alignment. Python compares an integer and a float by their values.
\<close>

datatype py_number = Integer int | Floating pyfloat

definition float_eq_int :: "pyfloat \<Rightarrow> int \<Rightarrow> bool" where
  "float_eq_int a i = (\<not> is_nan a \<and> \<not> is_inf a \<and> float_val a = of_int i)"

definition py_eq :: "py_number \<Rightarrow> py_number \<Rightarrow> bool" where
  "py_eq a b =
     (case a of
        Integer i \<Rightarrow> (case b of Integer j \<Rightarrow> i = j | Floating g \<Rightarrow> float_eq_int g i)
      | Floating f \<Rightarrow> (case b of Integer j \<Rightarrow> float_eq_int f j | Floating g \<Rightarrow> float_eq f g))"

text \<open>
  \<open>float(x)\<close>: the float itself, or the integer rounded to binary64, \<open>OverflowError\<close> where
  the integer is too large.
\<close>

definition py_float :: "py_number \<Rightarrow> py_error + pyfloat" where
  "py_float x =
     (case x of
        Floating f \<Rightarrow> Inr f
      | Integer i \<Rightarrow> (let f = binary64 (of_int i) in if is_inf f then Inl OverflowError else Inr f))"

text \<open>
  \<open>round(x)\<close> on a float. The scripts of the repository are Python 2 (\<open>xrange\<close>,
  \<open>cPickle\<close>), where \<open>round\<close> returns the nearest integer as a float, a half rounded away
  from zero, and returns an infinity or a NaN as it is.
\<close>

definition py_round :: "pyfloat \<Rightarrow> pyfloat" where
  "py_round a =
     (case a of
        Finite r \<Rightarrow>
          if 0 \<le> r then Finite (of_int \<lfloor>r + 1 / 2\<rfloor>)
          else (let v = \<lceil>r - 1 / 2\<rceil> in if v = 0 then NegZero else Finite (of_int v))
      | _ \<Rightarrow> a)"

text \<open>
  \<open>int(x)\<close> on a float truncates towards zero; it raises \<open>OverflowError\<close> on an infinity
  and \<open>ValueError\<close> on a NaN.
\<close>

definition py_int :: "pyfloat \<Rightarrow> py_error + int" where
  "py_int a =
     (case a of
        Finite r \<Rightarrow> Inr (if 0 \<le> r then \<lfloor>r\<rfloor> else \<lceil>r\<rceil>)
      | NegZero \<Rightarrow> Inr 0
      | PosInf \<Rightarrow> Inl OverflowError
      | NegInf \<Rightarrow> Inl OverflowError
      | NaN \<Rightarrow> Inl ValueError)"

section \<open>\<open>features/fbank/get_segments_scp.py\<close>: writing the list and the SCP\<close>

text \<open>A segment is the tuple \<open>(utterance, start_time, end_time)\<close> of the script.\<close>

type_synonym segment = "string \<times> py_number \<times> py_number"

text \<open>
  Lines 93--95: one \<open>f.write\<close> per segment. \<open>str\<close> of a time is \<open>str\<close> of the integer, or
  of the float: \<open>str_float\<close> is Python's \<open>str\<close> on a float. The file is the list of the
  strings written, in order.
\<close>

definition py_str :: "(pyfloat \<Rightarrow> string) \<Rightarrow> py_number \<Rightarrow> string" where
  "py_str str_float x = (case x of Integer i \<Rightarrow> str_int i | Floating f \<Rightarrow> str_float f)"

definition list_line :: "(pyfloat \<Rightarrow> string) \<Rightarrow> segment \<Rightarrow> string" where
  "list_line str_float seg =
     (case seg of (utt, start, end) \<Rightarrow>
        utt @ '' '' @ py_str str_float start @ '' '' @ py_str str_float end @ [CHR 0x0A])"

fun write_list :: "(pyfloat \<Rightarrow> string) \<Rightarrow> segment list \<Rightarrow> string list \<Rightarrow> string list" where
  "write_list str_float [] f = f"
| "write_list str_float (seg # segs) f = write_list str_float segs (f @ [list_line str_float seg])"

text \<open>
  Lines 115--116: \<open>frame t\<close> is \<open>int(round(float(t) * 100))\<close>. The product is the float
  product of the time and \<open>100.0\<close>.
\<close>

definition frame :: "py_number \<Rightarrow> py_error + int" where
  "frame t =
     (case py_float t of
        Inl e \<Rightarrow> Inl e
      | Inr f \<Rightarrow> py_int (py_round (float_mul f (Finite 100))))"

text \<open>
  Lines 113--127. \<open>lengths\<close> is the dictionary of frame counts, \<open>feat_dir\<close> the absolute
  feature directory. The state of the loop is what has been written to the SCP file and
  what has been printed.
\<close>

record scp_io =
  written :: "string list"
  printed :: "string list"

definition scp_line :: "string \<Rightarrow> string \<Rightarrow> int \<Rightarrow> int \<Rightarrow> string" where
  "scp_line feat_dir basename start end =
     (let segment_label = basename @ ''_'' @ fmt_06d start @ ''-'' @ fmt_06d end @ ''.fbank''
      in segment_label @ ''='' @ path_join feat_dir (basename @ ''.fbank'') @ ''[''
           @ str_int start @ '','' @ str_int end @ '']'' @ [CHR 0x0A])"

definition truncation_warning :: "string \<Rightarrow> string" where
  "truncation_warning basename =
     ''Warning: Problem with lengths (truncating): '' @ basename @ [CHR 0x0A]"

definition scp_step ::
  "string \<Rightarrow> (string \<rightharpoonup> int) \<Rightarrow> segment \<Rightarrow> scp_io \<Rightarrow> py_error + scp_io" where
  "scp_step feat_dir lengths seg io =
     (case seg of (basename, start_time, end_time) \<Rightarrow>
        (case frame start_time of
           Inl e \<Rightarrow> Inl e
         | Inr start \<Rightarrow>
             (case frame end_time of
                Inl e \<Rightarrow> Inl e
              | Inr end \<Rightarrow>
                  (case lengths basename of
                     None \<Rightarrow> Inl KeyError
                   | Some n \<Rightarrow>
                       if end > n then
                         (if start > n then
                            Inr (io\<lparr>printed := printed io @ [truncation_warning basename]\<rparr>)
                          else
                            Inr (io\<lparr>written := written io
                                     @ [scp_line feat_dir basename start (n - 1)]\<rparr>))
                       else
                         Inr (io\<lparr>written := written io
                                  @ [scp_line feat_dir basename start end]\<rparr>)))))"

fun write_scp ::
  "string \<Rightarrow> (string \<rightharpoonup> int) \<Rightarrow> segment list \<Rightarrow> scp_io \<Rightarrow> py_error + scp_io" where
  "write_scp feat_dir lengths [] io = Inr io"
| "write_scp feat_dir lengths (seg # segs) io =
     (case scp_step feat_dir lengths seg io of
        Inl e \<Rightarrow> Inl e
      | Inr io' \<Rightarrow> write_scp feat_dir lengths segs io')"

text \<open>
  What the loop does to one segment, in closed form, for comparison with \<open>write_scp\<close>
  below. \<open>scp_entry\<close> is the \<open>(basename, start, end)\<close> of the line written for the segment,
  if any: none when both the end frame and the start frame exceed \<open>lengths[basename]\<close>,
  and with \<open>lengths[basename] - 1\<close> for the end when the end frame exceeds
  \<open>lengths[basename]\<close>. \<open>scp_warning\<close> is what is printed for the segment. Both are empty
  where the loop raises.
\<close>

definition scp_entry :: "(string \<rightharpoonup> int) \<Rightarrow> segment \<Rightarrow> (string \<times> int \<times> int) list" where
  "scp_entry lengths seg =
     (case seg of (basename, start_time, end_time) \<Rightarrow>
        (case (frame start_time, frame end_time, lengths basename) of
           (Inr start, Inr end, Some n) \<Rightarrow>
             if n < end \<and> n < start then []
             else [(basename, start, if n < end then n - 1 else end)]
         | _ \<Rightarrow> []))"

definition scp_warning :: "(string \<rightharpoonup> int) \<Rightarrow> segment \<Rightarrow> string list" where
  "scp_warning lengths seg =
     (case seg of (basename, start_time, end_time) \<Rightarrow>
        (case (frame start_time, frame end_time, lengths basename) of
           (Inr start, Inr end, Some n) \<Rightarrow>
             if n < end \<and> n < start then [truncation_warning basename] else []
         | _ \<Rightarrow> []))"

text \<open>
  The same in the words of the claim on the written end: a segment is skipped with the
  warning when its start frame exceeds \<open>lengths[basename]\<close>, and is written otherwise,
  with \<open>lengths[basename] - 1\<close> for the end when the end frame exceeds \<open>lengths[basename]\<close>.
\<close>

definition claimed_entry :: "(string \<rightharpoonup> int) \<Rightarrow> segment \<Rightarrow> (string \<times> int \<times> int) list" where
  "claimed_entry lengths seg =
     (case seg of (basename, start_time, end_time) \<Rightarrow>
        (case (frame start_time, frame end_time, lengths basename) of
           (Inr start, Inr end, Some n) \<Rightarrow>
             if n < start then [] else [(basename, start, if n < end then n - 1 else end)]
         | _ \<Rightarrow> []))"

definition claimed_warning :: "(string \<rightharpoonup> int) \<Rightarrow> segment \<Rightarrow> string list" where
  "claimed_warning lengths seg =
     (case seg of (basename, start_time, end_time) \<Rightarrow>
        (case (frame start_time, frame end_time, lengths basename) of
           (Inr start, Inr end, Some n) \<Rightarrow>
             if n < start then [truncation_warning basename] else []
         | _ \<Rightarrow> []))"

section \<open>\<open>features/fbank/get_segments_scp.py\<close>: reading the forced alignment\<close>

text \<open>
  Lines 65--90. \<open>pyfloat\<close> is Python's \<open>float\<close> on a string, \<open>None\<close> where it raises
  \<open>ValueError\<close>. The file is the list of its lines. \<open>prev_end_time\<close> and \<open>start_time\<close>
  are the integer \<open>-1\<close> until the first retained token; \<open>!=\<close> is the negation of \<open>==\<close>.
\<close>

subsection \<open>\<open>str.strip\<close>, \<open>str.split\<close> and \<open>str.replace\<close>\<close>

definition is_space :: "char \<Rightarrow> bool" where
  "is_space c = (c \<in> set [CHR '' '', CHR 0x09, CHR 0x0A, CHR 0x0B, CHR 0x0C, CHR 0x0D])"

definition py_strip :: "string \<Rightarrow> string" where
  "py_strip s = rev (dropWhile is_space (rev (dropWhile is_space s)))"

fun split_from :: "string \<Rightarrow> string \<Rightarrow> string list" where
  "split_from word [] = (if word = [] then [] else [word])"
| "split_from word (c # cs) =
     (if is_space c then (if word = [] then split_from [] cs else word # split_from [] cs)
      else split_from (word @ [c]) cs)"

definition py_split :: "string \<Rightarrow> string list" where
  "py_split s = split_from [] s"

definition replace_underscores :: "string \<Rightarrow> string" where
  "replace_underscores s = map (\<lambda>c. if c = CHR ''_'' then CHR ''-'' else c) s"

record token =
  tok_utterance :: string
  tok_start :: pyfloat
  tok_end :: pyfloat
  tok_label :: string

definition parse_line :: "(string \<Rightarrow> pyfloat option) \<Rightarrow> string \<Rightarrow> py_error + token" where
  "parse_line pyfloat line =
     (case py_split (py_strip line) of
        [utterance, start_token, end_token, token_label] \<Rightarrow>
          (case pyfloat start_token of
             None \<Rightarrow> Inl ValueError
           | Some start_token \<Rightarrow>
               (case pyfloat end_token of
                  None \<Rightarrow> Inl ValueError
                | Some end_token \<Rightarrow>
                    Inr \<lparr>tok_utterance = replace_underscores utterance, tok_start = start_token,
                         tok_end = end_token, tok_label = token_label\<rparr>))
      | _ \<Rightarrow> Inl ValueError)"

record seg_state =
  segments :: "segment list"
  prev_utterance :: string
  prev_token_label :: string
  prev_end_time :: py_number
  start_time :: py_number

definition initial_state :: seg_state where
  "initial_state = \<lparr>segments = [], prev_utterance = [], prev_token_label = [],
                     prev_end_time = Integer (- 1), start_time = Integer (- 1)\<rparr>"

definition process_token :: "token \<Rightarrow> seg_state \<Rightarrow> seg_state" where
  "process_token tok st =
     (if tok_label tok \<in> set [''SIL'', ''SPN''] then st
      else
        let st1 =
          (if \<not> py_eq (prev_end_time st) (Floating (tok_start tok))
              \<or> prev_utterance st \<noteq> tok_utterance tok then
             (if \<not> py_eq (prev_end_time st) (Integer (- 1)) then
                st\<lparr>segments := segments st @ [(prev_utterance st, start_time st, prev_end_time st)]\<rparr>
              else st)\<lparr>start_time := Floating (tok_start tok)\<rparr>
           else st)
        in st1\<lparr>prev_end_time := Floating (tok_end tok), prev_token_label := tok_label tok,
                prev_utterance := tok_utterance tok\<rparr>)"

fun read_lines :: "(string \<Rightarrow> pyfloat option) \<Rightarrow> string list \<Rightarrow> seg_state \<Rightarrow> py_error + seg_state" where
  "read_lines pyfloat [] st = Inr st"
| "read_lines pyfloat (line # lines) st =
     (case parse_line pyfloat line of
        Inl e \<Rightarrow> Inl e
      | Inr tok \<Rightarrow> read_lines pyfloat lines (process_token tok st))"

definition get_segments :: "(string \<Rightarrow> pyfloat option) \<Rightarrow> string list \<Rightarrow> py_error + segment list" where
  "get_segments pyfloat lines =
     (case read_lines pyfloat lines initial_state of
        Inl e \<Rightarrow> Inl e
      | Inr st \<Rightarrow> Inr (segments st @ [(prev_utterance st, start_time st, prev_end_time st)]))"

text \<open>
  The loop over already parsed tokens, and the list the script ends with (line 90): both are
  used to state the invariant of the loop.
\<close>

fun process_tokens :: "token list \<Rightarrow> seg_state \<Rightarrow> seg_state" where
  "process_tokens [] st = st"
| "process_tokens (tok # toks) st = process_tokens toks (process_token tok st)"

definition finish :: "seg_state \<Rightarrow> segment list" where
  "finish st = segments st @ [(prev_utterance st, start_time st, prev_end_time st)]"

subsection \<open>Maximal runs of retained tokens\<close>

text \<open>
  The claim's words: a token is retained when its label is neither \<open>SIL\<close> nor \<open>SPN\<close>; a
  token continues the one before it when both have the same utterance and its start time
  equals the end time of the other, as floats; a run is a list of tokens each continuing
  the one before.
  \<open>maximal_runs\<close> cuts a list of tokens into its maximal runs, and \<open>run_segment\<close> is the
  entry \<open>(utterance, start of the first token, end of the last token)\<close> of a run.
\<close>

definition retained :: "token \<Rightarrow> bool" where
  "retained tok = (tok_label tok \<noteq> ''SIL'' \<and> tok_label tok \<noteq> ''SPN'')"

definition linked :: "token \<Rightarrow> token \<Rightarrow> bool" where
  "linked a b = (tok_utterance b = tok_utterance a \<and> float_eq (tok_end a) (tok_start b))"

fun maximal_runs :: "token list \<Rightarrow> token list list" where
  "maximal_runs [] = []"
| "maximal_runs (a # ts) =
     (case maximal_runs ts of
        [] \<Rightarrow> [[a]]
      | r # rs \<Rightarrow> if linked a (hd r) then (a # r) # rs else [a] # r # rs)"

fun chain :: "token list \<Rightarrow> bool" where
  "chain (a # b # ts) = (linked a b \<and> chain (b # ts))"
| "chain _ = True"

fun separated :: "token list list \<Rightarrow> bool" where
  "separated (r # s # rs) = (\<not> linked (last r) (hd s) \<and> separated (s # rs))"
| "separated _ = True"

definition run_segment :: "token list \<Rightarrow> segment" where
  "run_segment r = (tok_utterance (hd r), Floating (tok_start (hd r)), Floating (tok_end (last r)))"

subsection \<open>A reader of plain decimal literals\<close>

text \<open>
  \<open>read_decimal\<close> reads \<open>-?digits(.digits)?\<close> and rounds the value to binary64, as
  Python's \<open>float\<close> does on such a literal. It stands for \<open>float\<close> in the examples below.
\<close>

definition digit_val :: "char \<Rightarrow> nat option" where
  "digit_val c = map_of (zip ''0123456789'' [0, 1, 2, 3, 4, 5, 6, 7, 8, 9]) c"

fun digits_val :: "string \<Rightarrow> nat \<Rightarrow> nat option" where
  "digits_val [] acc = Some acc"
| "digits_val (c # cs) acc =
     (case digit_val c of None \<Rightarrow> None | Some d \<Rightarrow> digits_val cs (10 * acc + d))"

definition read_unsigned :: "string \<Rightarrow> pyfloat option" where
  "read_unsigned s =
     (let ip = takeWhile (\<lambda>c. c \<noteq> CHR ''.'') s;
          fp = drop (Suc (length ip)) s
      in if ip = [] \<and> fp = [] then None
         else (case (digits_val ip 0, digits_val fp 0) of
                 (Some a, Some b) \<Rightarrow> Some (binary64 (real a + real b / 10 ^ length fp))
               | _ \<Rightarrow> None))"

definition read_decimal :: "string \<Rightarrow> pyfloat option" where
  "read_decimal s =
     (case s of
        [] \<Rightarrow> None
      | c # r \<Rightarrow> if c = CHR ''-'' then map_option float_neg (read_unsigned r) else read_unsigned s)"

section \<open>\<open>embeddings/link_xitsonga_mfcc.py\<close>\<close>

subsection \<open>The file system\<close>

text \<open>
  The file system is what \<open>lstat\<close> finds at each path as the script spells it: nothing, a
  regular file, a directory, or a symbolic link with its target text. \<open>stat\<close> follows
  links, a relative target read from the directory of the link; the kernel gives up after
  40 links.
\<close>

datatype node = RegularFile | Directory | Symlink string

type_synonym filesystem = "string \<rightharpoonup> node"

definition rstrip_slash :: "string \<Rightarrow> string" where
  "rstrip_slash s = rev (dropWhile (\<lambda>c. c = CHR ''/'') (rev s))"

text \<open>\<open>posixpath.split\<close> and \<open>posixpath.dirname\<close>.\<close>

definition path_split :: "string \<Rightarrow> string \<times> string" where
  "path_split p =
     (let tail = rev (takeWhile (\<lambda>c. c \<noteq> CHR ''/'') (rev p));
          head = take (length p - length tail) p
      in (if head \<noteq> [] \<and> \<not> list_all (\<lambda>c. c = CHR ''/'') head then rstrip_slash head else head,
          tail))"

definition dirname :: "string \<Rightarrow> string" where
  "dirname p = fst (path_split p)"

fun stat_fuel :: "nat \<Rightarrow> filesystem \<Rightarrow> string \<Rightarrow> node option" where
  "stat_fuel 0 fs p = None"
| "stat_fuel (Suc n) fs p =
     (case fs p of
        None \<Rightarrow> None
      | Some (Symlink target) \<Rightarrow> stat_fuel n fs (path_join (dirname p) target)
      | Some nd \<Rightarrow> Some nd)"

definition stat :: "filesystem \<Rightarrow> string \<Rightarrow> node option" where
  "stat fs p = stat_fuel 41 fs p"

definition path_exists :: "filesystem \<Rightarrow> string \<Rightarrow> bool" where
  "path_exists fs p = (stat fs p \<noteq> None)"

definition path_isdir :: "filesystem \<Rightarrow> string \<Rightarrow> bool" where
  "path_isdir fs p = (stat fs p = Some Directory)"

definition path_isfile :: "filesystem \<Rightarrow> string \<Rightarrow> bool" where
  "path_isfile fs p = (stat fs p = Some RegularFile)"

text \<open>
  \<open>os.mkdir\<close> and \<open>os.symlink\<close> raise \<open>OSError\<close> where the path exists (a dangling link
  included) or its directory does not; the empty directory name is the working directory.
\<close>

definition parent_error :: "filesystem \<Rightarrow> string \<Rightarrow> py_error option" where
  "parent_error fs p =
     (if dirname p = [] then None
      else (case stat fs (dirname p) of
              None \<Rightarrow> Some (OSError ENOENT)
            | Some Directory \<Rightarrow> None
            | Some _ \<Rightarrow> Some (OSError ENOTDIR)))"

definition os_mkdir :: "string \<Rightarrow> filesystem \<Rightarrow> py_error + filesystem" where
  "os_mkdir p fs =
     (if fs p \<noteq> None then Inl (OSError EEXIST)
      else (case parent_error fs p of
              Some e \<Rightarrow> Inl e
            | None \<Rightarrow> Inr (fs(p \<mapsto> Directory))))"

definition os_symlink :: "string \<Rightarrow> string \<Rightarrow> filesystem \<Rightarrow> py_error + filesystem" where
  "os_symlink src dst fs =
     (if fs dst \<noteq> None then Inl (OSError EEXIST)
      else (case parent_error fs dst of
              Some e \<Rightarrow> Inl e
            | None \<Rightarrow> Inr (fs(dst \<mapsto> Symlink src))))"

text \<open>\<open>os.makedirs\<close> (Python 2.7).\<close>

definition makedirs_split :: "string \<Rightarrow> string \<times> string" where
  "makedirs_split name =
     (case path_split name of
        (head, tail) \<Rightarrow> if tail = [] then path_split head else (head, tail))"

function makedirs :: "string \<Rightarrow> filesystem \<Rightarrow> py_error + filesystem" where
  "makedirs name fs =
     (case makedirs_split name of
        (head, tail) \<Rightarrow>
          if head \<noteq> [] \<and> tail \<noteq> [] \<and> \<not> path_exists fs head then
            (case makedirs head fs of
               Inl e \<Rightarrow>
                 if e = OSError EEXIST then (if tail = ''.'' then Inr fs else os_mkdir name fs)
                 else Inl e
             | Inr fs' \<Rightarrow> if tail = ''.'' then Inr fs' else os_mkdir name fs')
          else os_mkdir name fs)"
  by pat_completeness auto
termination
proof (relation "measure (\<lambda>(name, fs). length name)")
  show "wf (measure (\<lambda>(name, fs :: filesystem). length name))"
    by simp
next
  fix name :: string and fs :: filesystem and head tail :: string
  assume split: "(head, tail) = makedirs_split name"
    and cond: "head \<noteq> [] \<and> tail \<noteq> [] \<and> \<not> path_exists fs head"
  from cond have tail: "tail \<noteq> []" by simp
  have strip: "length (rstrip_slash s) \<le> length s" for s
    by (simp add: rstrip_slash_def) (metis length_dropWhile_le length_rev)
  have len: "length (fst (path_split p)) + length (snd (path_split p)) \<le> length p" for p
  proof -
    define t where "t = rev (takeWhile (\<lambda>c. c \<noteq> CHR ''/'') (rev p))"
    have "length t \<le> length p"
      unfolding t_def by (metis length_rev length_takeWhile_le)
    then show ?thesis
      using strip[of "take (length p - length t) p"]
      by (auto simp: path_split_def Let_def t_def[symmetric])
  qed
  have "length head < length name"
  proof (cases "snd (path_split name) = []")
    case True
    then have "path_split (fst (path_split name)) = (head, tail)"
      using split by (simp add: makedirs_split_def split: prod.splits)
    then have "length head + length tail \<le> length (fst (path_split name))"
      using len[of "fst (path_split name)"] by simp
    moreover have "length (fst (path_split name)) \<le> length name"
      using len[of name] by simp
    ultimately show ?thesis using tail by (cases tail) auto
  next
    case False
    then have "path_split name = (head, tail)"
      using split by (simp add: makedirs_split_def split: prod.splits)
    then show ?thesis using len[of name] tail by (cases tail) auto
  qed
  then show "((head, fs), (name, fs)) \<in> measure (\<lambda>(name, fs). length name)"
    by simp
qed

declare makedirs.simps [simp del]


subsection \<open>The script\<close>

record world =
  files :: filesystem
  stdout :: "string list"

definition relative_features_dir :: string where
  "relative_features_dir = path_join (path_join (path_join ''..'' ''..'') ''..'') ''features''"

definition output_dir :: string where
  "output_dir = path_join ''data'' ''xitsonga.mfcc''"

definition train_npz_fn :: string where
  "train_npz_fn =
     path_join (path_join (path_join relative_features_dir ''wordpairs'') ''xitsonga'')
       ''xitsonga_utd_terms.mfcc.cmvn_dd.npz''"

definition train_link_fn :: string where
  "train_link_fn = path_join output_dir ''train.utd.npz''"

definition test_npz_fn :: string where
  "test_npz_fn =
     path_join (path_join (path_join relative_features_dir ''wordpairs'') ''xitsonga'')
       ''xitsonga.samediff.mfcc.cmvn_dd.npz''"

definition test_link_fn :: string where
  "test_link_fn = path_join output_dir ''test.npz''"

definition linking_message :: "string \<Rightarrow> string \<Rightarrow> string" where
  "linking_message npz_fn link_fn = ''Linking: '' @ npz_fn @ '' to '' @ link_fn @ [CHR 0x0A]"

definition link_main :: "world \<Rightarrow> py_error + world" where
  "link_main w =
     (case (if \<not> path_isdir (files w) output_dir then
              (case makedirs output_dir (files w) of
                 Inl e \<Rightarrow> Inl e
               | Inr fs \<Rightarrow> Inr (w\<lparr>files := fs\<rparr>))
            else Inr w) of
        Inl e \<Rightarrow> Inl e
      | Inr w1 \<Rightarrow>
          (case (if \<not> path_isfile (files w1) train_link_fn then
                   (case os_symlink train_npz_fn train_link_fn (files w1) of
                      Inl e \<Rightarrow> Inl e
                    | Inr fs \<Rightarrow>
                        Inr \<lparr>files = fs,
                             stdout = stdout w1 @ [linking_message train_npz_fn train_link_fn]\<rparr>)
                 else Inr w1) of
             Inl e \<Rightarrow> Inl e
           | Inr w2 \<Rightarrow>
               (if \<not> path_isfile (files w2) test_link_fn then
                  (case os_symlink test_npz_fn test_link_fn (files w2) of
                     Inl e \<Rightarrow> Inl e
                   | Inr fs \<Rightarrow>
                       Inr \<lparr>files = fs,
                            stdout = stdout w2 @ [linking_message test_npz_fn test_link_fn]\<rparr>)
                else Inr w2)))"

text \<open>
  A file system for the examples: the two feature files are there, as regular files at the
  paths the links will point to, and nothing else is.
\<close>

definition features_present :: filesystem where
  "features_present =
     [path_join (dirname train_link_fn) train_npz_fn \<mapsto> RegularFile,
      path_join (dirname test_link_fn) test_npz_fn \<mapsto> RegularFile]"

section \<open>\<open>src/test_tflego.py\<close>: the NumPy reference functions\<close>

text \<open>
  A one-dimensional array is a list, a two-dimensional array the list of its rows, a
  three-dimensional array the list of its items. The entries of the arrays of the
  recurrent references (\<open>np_rnn\<close>, \<open>np_encdec_lazydynamic\<close>) are reals, with exact
  arithmetic; the entries of the arrays of the vector-quantisation reference are floats.
\<close>

subsection \<open>Python indexing and NumPy primitives\<close>

definition py_index :: "'a list \<Rightarrow> int \<Rightarrow> py_error + 'a" where
  "py_index xs i =
     (let n = int (length xs); j = (if i < 0 then i + n else i)
      in if 0 \<le> j \<and> j < n then Inr (xs ! nat j) else Inl IndexError)"

definition py_slice_to :: "int \<Rightarrow> 'a list \<Rightarrow> 'a list" where
  "py_slice_to l xs = (if l < 0 then take (nat (int (length xs) + l)) xs else take (nat l) xs)"

text \<open>
  Elementwise arithmetic on two one-dimensional arrays broadcasts an array of length one
  and raises \<open>ValueError\<close> on any other two different lengths.
\<close>

definition np_broadcast :: "('a \<Rightarrow> 'a \<Rightarrow> 'a) \<Rightarrow> 'a list \<Rightarrow> 'a list \<Rightarrow> py_error + 'a list" where
  "np_broadcast f x y =
     (if length x = length y then Inr (map2 f x y)
      else if length y = 1 then Inr (map (\<lambda>a. f a (hd y)) x)
      else if length x = 1 then Inr (map (\<lambda>b. f (hd x) b) y)
      else Inl ValueError)"

definition np_add :: "real list \<Rightarrow> real list \<Rightarrow> py_error + real list" where
  "np_add x y = np_broadcast (\<lambda>a b. a + b) x y"

subsection \<open>The vector-quantisation reference of \<open>test_vq\<close> (lines 389--394)\<close>

text \<open>
  \<open>x_test - embed\<close> on two arrays of floats, and \<open>np.linalg.norm\<close> of a one-dimensional
  array: the square root of the dot product of the array with itself, every product,
  every partial sum (from the left) and the square root rounded to binary64.
\<close>

definition np_sub :: "pyfloat list \<Rightarrow> pyfloat list \<Rightarrow> py_error + pyfloat list" where
  "np_sub x y = np_broadcast float_sub x y"

definition np_dot_self :: "pyfloat list \<Rightarrow> pyfloat" where
  "np_dot_self v = foldl float_add (Finite 0) (map (\<lambda>a. float_mul a a) v)"

definition np_linalg_norm :: "pyfloat list \<Rightarrow> pyfloat" where
  "np_linalg_norm v = float_sqrt (np_dot_self v)"

text \<open>
  \<open>np.argmin\<close> of a list of floats: it keeps the first element and its index, replaces
  them by every later element \<open>d\<close> for which \<open>d >= mp\<close> is false, and stops at a NaN;
  \<open>ValueError\<close> on the empty list.
\<close>

fun argmin_from :: "nat \<Rightarrow> pyfloat \<Rightarrow> nat \<Rightarrow> pyfloat list \<Rightarrow> nat" where
  "argmin_from min_ind mp i [] = min_ind"
| "argmin_from min_ind mp i (d # ds) =
     (if \<not> float_ge d mp then (if is_nan d then i else argmin_from i d (Suc i) ds)
      else argmin_from min_ind mp (Suc i) ds)"

definition np_argmin :: "pyfloat list \<Rightarrow> py_error + nat" where
  "np_argmin ds =
     (case ds of
        [] \<Rightarrow> Inl ValueError
      | d # ds' \<Rightarrow> Inr (if is_nan d then 0 else argmin_from 0 d 1 ds'))"

fun vq_dists :: "pyfloat list \<Rightarrow> pyfloat list list \<Rightarrow> py_error + pyfloat list" where
  "vq_dists x_test [] = Inr []"
| "vq_dists x_test (embedding # embeds) =
     (case np_sub x_test embedding of
        Inl e \<Rightarrow> Inl e
      | Inr d \<Rightarrow>
          (case vq_dists x_test embeds of
             Inl e \<Rightarrow> Inl e
           | Inr dists \<Rightarrow> Inr (np_linalg_norm d # dists)))"

fun np_z_q :: "pyfloat list list \<Rightarrow> pyfloat list list \<Rightarrow> py_error + pyfloat list list" where
  "np_z_q [] tf_embeds = Inr []"
| "np_z_q (x_test # test_data) tf_embeds =
     (case vq_dists x_test tf_embeds of
        Inl e \<Rightarrow> Inl e
      | Inr dists \<Rightarrow>
          (case np_argmin dists of
             Inl e \<Rightarrow> Inl e
           | Inr k \<Rightarrow>
               (case py_index tf_embeds (int k) of
                  Inl e \<Rightarrow> Inl e
                | Inr z \<Rightarrow>
                    (case np_z_q test_data tf_embeds of
                       Inl e \<Rightarrow> Inl e
                     | Inr zs \<Rightarrow> Inr (z # zs)))))"

text \<open>
  The distance the reference computes between an input vector and a codebook entry, and
  the order \<open>np.argmin\<close> minimises: \<open><\<close> on numbers, a NaN before every number.
\<close>

definition computed_distance :: "pyfloat list \<Rightarrow> pyfloat list \<Rightarrow> pyfloat" where
  "computed_distance x e = np_linalg_norm (map2 float_sub x e)"

definition argmin_less :: "pyfloat \<Rightarrow> pyfloat \<Rightarrow> bool" where
  "argmin_less a b = (\<not> is_nan b \<and> (is_nan a \<or> float_lt a b))"

text \<open>The Euclidean distance of two vectors of finite floats of one length.\<close>

definition euclidean_distance :: "pyfloat list \<Rightarrow> pyfloat list \<Rightarrow> real" where
  "euclidean_distance x y = sqrt (\<Sum>(a, b)\<leftarrow>zip x y. (float_val a - float_val b)\<^sup>2)"

subsection \<open>Matrices, \<open>np.dot\<close>, \<open>np.tanh\<close>, \<open>np.zeros\<close> and row assignment\<close>

text \<open>
  A weight matrix is read through its shape and its entries only: \<open>W.shape[1]\<close> is
  \<open>ncols W\<close> and \<open>W[i, j]\<close> is \<open>entry W i j\<close>.
\<close>

record matrix =
  nrows :: nat
  ncols :: nat
  entry :: "nat \<Rightarrow> nat \<Rightarrow> real"

definition np_dot :: "real list \<Rightarrow> matrix \<Rightarrow> py_error + real list" where
  "np_dot v W =
     (if length v = nrows W then
        Inr (map (\<lambda>j. \<Sum>i\<leftarrow>[0..<nrows W]. v ! i * entry W i j) [0..<ncols W])
      else Inl ValueError)"

definition np_tanh :: "real list \<Rightarrow> real list" where
  "np_tanh v = map tanh v"

definition np_zeros2 :: "nat \<Rightarrow> nat \<Rightarrow> real list list" where
  "np_zeros2 m n = replicate m (replicate n 0)"

text \<open>
  \<open>a[i, :] = v\<close> on a two-dimensional array: \<open>IndexError\<close> beyond the last row; \<open>v\<close> has
  the length of the row, or length one and is broadcast, or \<open>ValueError\<close> is raised.
\<close>

definition set_row :: "real list list \<Rightarrow> nat \<Rightarrow> real list \<Rightarrow> py_error + real list list" where
  "set_row a i v =
     (if \<not> i < length a then Inl IndexError
      else if length v = length (a ! i) then Inr (a[i := v])
      else if length v = 1 then Inr (a[i := replicate (length (a ! i)) (hd v)])
      else Inl ValueError)"

text \<open>\<open>max\<close> of a list of integers: \<open>ValueError\<close> on the empty list.\<close>

definition py_max :: "int list \<Rightarrow> py_error + int" where
  "py_max ls = (case ls of [] \<Rightarrow> Inl ValueError | l # ls' \<Rightarrow> Inr (fold max ls' l))"

definition resolve_maxlength :: "int option \<Rightarrow> int list \<Rightarrow> py_error + int" where
  "resolve_maxlength maxlength x_lengths =
     (case maxlength of None \<Rightarrow> py_max x_lengths | Some m \<Rightarrow> Inr m)"

subsection \<open>\<open>np_linear\<close> and \<open>np_rnn\<close> (lines 16--32)\<close>

definition np_linear :: "real list \<Rightarrow> matrix \<Rightarrow> real list \<Rightarrow> py_error + real list" where
  "np_linear x W b = (case np_dot x W of Inl e \<Rightarrow> Inl e | Inr d \<Rightarrow> np_add d b)"

text \<open>The inner loop of \<open>np_rnn\<close>, over the steps of one sequence.\<close>

fun rnn_steps ::
  "matrix \<Rightarrow> real list \<Rightarrow> real list list \<Rightarrow> real list \<Rightarrow> nat \<Rightarrow> real list list
     \<Rightarrow> py_error + real list list" where
  "rnn_steps W b [] prev_state i_step outputs_i = Inr outputs_i"
| "rnn_steps W b (cur_x # cur_x_sequence) prev_state i_step outputs_i =
     (case np_dot (cur_x @ prev_state) W of
        Inl e \<Rightarrow> Inl e
      | Inr d \<Rightarrow>
          (case np_add d b of
             Inl e \<Rightarrow> Inl e
           | Inr s \<Rightarrow>
               let cur_state = np_tanh s in
               (case set_row outputs_i i_step cur_state of
                  Inl e \<Rightarrow> Inl e
                | Inr outputs_i' \<Rightarrow>
                    rnn_steps W b cur_x_sequence cur_state (Suc i_step) outputs_i')))"

text \<open>The outer loop of \<open>np_rnn\<close>, over the items of the batch and their lengths.\<close>

fun rnn_items ::
  "matrix \<Rightarrow> real list \<Rightarrow> nat \<Rightarrow> real list list list \<Rightarrow> int list
     \<Rightarrow> py_error + real list list list" where
  "rnn_items W b maxlength [] x_lengths = Inr []"
| "rnn_items W b maxlength (x_i # x) x_lengths =
     (case x_lengths of
        [] \<Rightarrow> Inl IndexError
      | l # ls \<Rightarrow>
          (case rnn_steps W b (py_slice_to l x_i) (replicate (ncols W) 0) 0
                  (np_zeros2 maxlength (ncols W)) of
             Inl e \<Rightarrow> Inl e
           | Inr outputs_i \<Rightarrow>
               (case rnn_items W b maxlength x ls of
                  Inl e \<Rightarrow> Inl e
                | Inr outputs \<Rightarrow> Inr (outputs_i # outputs))))"

definition np_rnn ::
  "real list list list \<Rightarrow> int list \<Rightarrow> matrix \<Rightarrow> real list \<Rightarrow> int option
     \<Rightarrow> py_error + real list list list" where
  "np_rnn x x_lengths W b maxlength =
     (case resolve_maxlength maxlength x_lengths of
        Inl e \<Rightarrow> Inl e
      | Inr m \<Rightarrow> if m < 0 then Inl ValueError else rnn_items W b (nat m) x x_lengths)"

subsection \<open>\<open>np_encdec_lazydynamic\<close> (lines 45--86)\<close>

text \<open>Lines 53--56: the encoder state of each item at its last step.\<close>

fun encoder_states_loop ::
  "real list list list \<Rightarrow> nat \<Rightarrow> int list \<Rightarrow> py_error + real list list" where
  "encoder_states_loop encoder_output i_data [] = Inr []"
| "encoder_states_loop encoder_output i_data (l # ls) =
     (case py_index encoder_output (int i_data) of
        Inl e \<Rightarrow> Inl e
      | Inr item \<Rightarrow>
          (case py_index item (l - 1) of
             Inl e \<Rightarrow> Inl e
           | Inr s \<Rightarrow>
               (case encoder_states_loop encoder_output (Suc i_data) ls of
                  Inl e \<Rightarrow> Inl e
                | Inr states \<Rightarrow> Inr (s # states))))"

text \<open>
  Lines 61--64: every encoder state repeated \<open>maxlength\<close> times. \<open>np.reshape\<close> cannot
  infer the \<open>-1\<close> dimension when the product of the other two is zero.
\<close>

definition repeat_states :: "real list list \<Rightarrow> int \<Rightarrow> nat \<Rightarrow> py_error + real list list list" where
  "repeat_states encoder_states maxlength n_hidden =
     (if nat maxlength * n_hidden = 0 then Inl ValueError
      else Inr (map (\<lambda>s. replicate (nat maxlength) s) encoder_states))"

text \<open>Lines 77--82: the final linear layer on the steps of one item.\<close>

fun linear_steps ::
  "matrix \<Rightarrow> real list \<Rightarrow> real list list \<Rightarrow> nat \<Rightarrow> real list list \<Rightarrow> real list list
     \<Rightarrow> py_error + (real list list \<times> real list list)" where
  "linear_steps W b [] i_step linear_i cur_decoder_list = Inr (linear_i, cur_decoder_list)"
| "linear_steps W b (cur_decoder # cur_decoder_sequence) i_step linear_i cur_decoder_list =
     (case np_linear cur_decoder W b of
        Inl e \<Rightarrow> Inl e
      | Inr output_linear \<Rightarrow>
          (case set_row linear_i i_step output_linear of
             Inl e \<Rightarrow> Inl e
           | Inr linear_i' \<Rightarrow>
               linear_steps W b cur_decoder_sequence (Suc i_step) linear_i'
                 (cur_decoder_list @ [output_linear])))"

text \<open>
  Lines 72--83: the loop over the items; \<open>np.zeros(x.shape)\<close> is \<open>x\<close> with every entry
  zero.
\<close>

fun linear_items ::
  "matrix \<Rightarrow> real list \<Rightarrow> real list list list \<Rightarrow> real list list list \<Rightarrow> int list
     \<Rightarrow> py_error + (real list list list \<times> real list list list)" where
  "linear_items W b [] decoder_output x_lengths = Inr ([], [])"
| "linear_items W b (x_i # x) decoder_output x_lengths =
     (case x_lengths of
        [] \<Rightarrow> Inl IndexError
      | l # ls \<Rightarrow>
          (case decoder_output of
             [] \<Rightarrow> Inl IndexError
           | d_i # ds \<Rightarrow>
               (case linear_steps W b (py_slice_to l d_i) 0 (map (map (\<lambda>_. 0)) x_i) [] of
                  Inl e \<Rightarrow> Inl e
                | Inr (linear_i, cur_decoder_list) \<Rightarrow>
                    (case linear_items W b x ds ls of
                       Inl e \<Rightarrow> Inl e
                     | Inr (linear_rest, decoder_output_list) \<Rightarrow>
                         Inr (linear_i # linear_rest, cur_decoder_list # decoder_output_list)))))"

definition np_encdec_lazydynamic ::
  "real list list list \<Rightarrow> int list \<Rightarrow> matrix \<Rightarrow> real list \<Rightarrow> matrix \<Rightarrow> real list
     \<Rightarrow> matrix \<Rightarrow> real list \<Rightarrow> int option
     \<Rightarrow> py_error + (real list list \<times> real list list list \<times> real list list list)" where
  "np_encdec_lazydynamic x x_lengths W_encoder b_encoder W_decoder b_decoder W_output b_output
       maxlength =
     (case resolve_maxlength maxlength x_lengths of
        Inl e \<Rightarrow> Inl e
      | Inr m \<Rightarrow>
          (case np_rnn x x_lengths W_encoder b_encoder (Some m) of
             Inl e \<Rightarrow> Inl e
           | Inr encoder_output \<Rightarrow>
               (case encoder_states_loop encoder_output 0 x_lengths of
                  Inl e \<Rightarrow> Inl e
                | Inr encoder_states \<Rightarrow>
                    (case repeat_states encoder_states m (ncols W_encoder) of
                       Inl e \<Rightarrow> Inl e
                     | Inr decoder_input \<Rightarrow>
                         (case np_rnn decoder_input x_lengths W_decoder b_decoder (Some m) of
                            Inl e \<Rightarrow> Inl e
                          | Inr decoder_output \<Rightarrow>
                              (case linear_items W_output b_output x decoder_output x_lengths of
                                 Inl e \<Rightarrow> Inl e
                               | Inr (decoder_output_linear, decoder_output_list) \<Rightarrow>
                                   Inr (encoder_states, decoder_output_linear,
                                        decoder_output_list)))))))"

text \<open>The shape of a two-dimensional and of a three-dimensional array.\<close>

definition has_shape2 :: "real list list \<Rightarrow> nat \<Rightarrow> nat \<Rightarrow> bool" where
  "has_shape2 a m n = (length a = m \<and> (\<forall>r \<in> set a. length r = n))"

definition has_shape3 :: "real list list list \<Rightarrow> nat \<Rightarrow> nat \<Rightarrow> nat \<Rightarrow> bool" where
  "has_shape3 a k m n = (length a = k \<and> (\<forall>item \<in> set a. has_shape2 item m n))"

text \<open>Weights for the examples: an all-zero recurrent kernel and an all-one output kernel.\<close>

definition demo_W_zero :: matrix where
  "demo_W_zero = \<lparr>nrows = 2, ncols = 1, entry = (\<lambda>i j. 0)\<rparr>"

definition demo_W_output :: matrix where
  "demo_W_output = \<lparr>nrows = 1, ncols = 1, entry = (\<lambda>i j. 1)\<rparr>"

section \<open>\<open>embeddings/train_siamese.py\<close>: one side of the Siamese network\<close>

text \<open>
  The module \<open>tflego\<close> is not among the sources: its three builders and the \<open>.h\<close>
  attribute of an LSTM state are parameters, gathered in a record. \<open>'t\<close> is the type of
  tensors and states, \<open>'l\<close> the type of the lengths tensor. Building a network adds to the
  framework's graph: the function returns, with its result, the list of the builder calls
  it has made, in order.
\<close>

record ('t, 'l) tflego =
  build_bidirectional_multi_rnn :: "'t \<Rightarrow> 'l \<Rightarrow> int list \<Rightarrow> string \<Rightarrow> real \<Rightarrow> 't \<times> 't"
  build_multi_rnn :: "'t \<Rightarrow> 'l \<Rightarrow> int list \<Rightarrow> string \<Rightarrow> real \<Rightarrow> 't \<times> 't"
  build_feedforward :: "'t \<Rightarrow> int list \<Rightarrow> real \<Rightarrow> 't"
  state_h :: "'t \<Rightarrow> 't"

datatype ('t, 'l) tflego_call =
    Call_build_bidirectional_multi_rnn 't 'l "int list" string real
  | Call_build_multi_rnn 't 'l "int list" string real
  | Call_build_feedforward 't "int list" real

definition build_siamese_rnn_side ::
  "('t, 'l) tflego \<Rightarrow> 't \<Rightarrow> 'l \<Rightarrow> int list \<Rightarrow> int list \<Rightarrow> string \<Rightarrow> real \<Rightarrow> real \<Rightarrow> bool
     \<Rightarrow> 't \<times> ('t, 'l) tflego_call list" where
  "build_siamese_rnn_side tf x x_lengths rnn_n_hiddens ff_n_hiddens rnn_type rnn_keep_prob
       ff_keep_prob bidirectional =
     (let ((rnn_outputs, rnn_states), calls) =
            (if bidirectional then
               (build_bidirectional_multi_rnn tf x x_lengths rnn_n_hiddens rnn_type rnn_keep_prob,
                [Call_build_bidirectional_multi_rnn x x_lengths rnn_n_hiddens rnn_type rnn_keep_prob])
             else
               (build_multi_rnn tf x x_lengths rnn_n_hiddens rnn_type rnn_keep_prob,
                [Call_build_multi_rnn x x_lengths rnn_n_hiddens rnn_type rnn_keep_prob]));
          rnn_states = (if rnn_type = ''lstm'' then state_h tf rnn_states else rnn_states);
          rnn = build_feedforward tf rnn_states ff_n_hiddens ff_keep_prob
      in (rnn, calls @ [Call_build_feedforward rnn_states ff_n_hiddens ff_keep_prob]))"

text \<open>A framework of integers for the examples.\<close>

definition demo_tflego :: "(int, int) tflego" where
  "demo_tflego =
     \<lparr>build_bidirectional_multi_rnn = (\<lambda>x l hs ty kp. (x, 2 * x)),
      build_multi_rnn = (\<lambda>x l hs ty kp. (x, x + 1)),
      build_feedforward = (\<lambda>s hs kp. 10 * s),
      state_h = (\<lambda>s. s + 100)\<rparr>"

section \<open>\<open>embeddings/train_siamese.py\<close>: the model directory and the saved files\<close>

text \<open>
  \<open>options_dict\<close> is a dictionary from strings to values of several types.
\<close>

datatype py_value =
    PyStr string
  | PyInt int
  | PyFloat real
  | PyBool bool
  | PyIntList "int list"

type_synonym options = "string \<rightharpoonup> py_value"

text \<open>\<open>options_dict[key]\<close> where the script needs a string.\<close>

definition get_str :: "options \<Rightarrow> string \<Rightarrow> py_error + string" where
  "get_str options_dict key =
     (case options_dict key of
        None \<Rightarrow> Inl KeyError
      | Some (PyStr s) \<Rightarrow> Inr s
      | Some _ \<Rightarrow> Inl TypeError)"

text \<open>
  What \<open>train_siamese\<close> takes from outside the script is a record of parameters:
  \<open>hashlib.md5(s).hexdigest()\<close>, \<open>repr(sorted(options_dict.items()))\<close>, \<open>os.path.isdir\<close> and
  \<open>os.makedirs\<close> on the model directory, \<open>pickle.dumps\<close> on the two dictionaries, the
  training of lines 129--253 (data loading, graph construction and
  \<open>training.train_fixed_epochs_external_val\<close>, which returns the record dictionary) and the
  final validation of lines 270--280, which yields the text of \<open>val_ap.txt\<close>. \<open>'r\<close> is the
  type of the record dictionary.
\<close>

record 'r siamese_env =
  md5_hexdigest :: "string \<Rightarrow> string"
  repr_sorted_items :: "options \<Rightarrow> string"
  model_dir_isdir :: "string \<Rightarrow> bool"
  os_makedirs :: "string \<Rightarrow> py_error option"
  train :: "options \<Rightarrow> py_error + 'r"
  final_validation :: "options \<Rightarrow> py_error + string"
  pickle_dumps_record :: "'r \<Rightarrow> string"
  pickle_dumps_options :: "options \<Rightarrow> string"

text \<open>Lines 117--122.\<close>

definition model_dir_of :: "'r siamese_env \<Rightarrow> options \<Rightarrow> py_error + string" where
  "model_dir_of env options_dict =
     (let hash_str = take 10 (md5_hexdigest env (repr_sorted_items env options_dict)) in
      case get_str options_dict ''data_dir'' of
        Inl e \<Rightarrow> Inl e
      | Inr data_dir \<Rightarrow>
          (case get_str options_dict ''train_tag'' of
             Inl e \<Rightarrow> Inl e
           | Inr train_tag \<Rightarrow>
               (case get_str options_dict ''script'' of
                  Inl e \<Rightarrow> Inl e
                | Inr script \<Rightarrow>
                    Inr (path_join
                           (path_join
                              (path_join ''models'' (snd (path_split data_dir) @ ''.'' @ train_tag))
                              script)
                           hash_str))))"

text \<open>
  The files the script itself creates, in order, as a list of events, with the exception
  that ends the run if one does. Opening a file for writing is taken to succeed; what the
  script prints and what the framework writes (checkpoints) is left out.
\<close>

datatype fs_event = Makedirs string | Write_file string string

definition train_siamese :: "'r siamese_env \<Rightarrow> options \<Rightarrow> fs_event list \<times> py_error option" where
  "train_siamese env options_dict =
     (case model_dir_of env options_dict of
        Inl e \<Rightarrow> ([], Some e)
      | Inr model_dir \<Rightarrow>
          (case (if \<not> model_dir_isdir env model_dir then os_makedirs env model_dir else None) of
             Some e \<Rightarrow> ([], Some e)
           | None \<Rightarrow>
               let made = (if \<not> model_dir_isdir env model_dir then [Makedirs model_dir] else []);
                   d_frame = 13;
                   options_dict = options_dict(''n_input'' \<mapsto> PyInt d_frame)
               in (case train env options_dict of
                     Inl e \<Rightarrow> (made, Some e)
                   | Inr record_dict \<Rightarrow>
                       let record_dict_fn = path_join model_dir ''record_dict.pkl'';
                           options_dict_fn = path_join model_dir ''options_dict.pkl'';
                           saved = made @
                             [Write_file record_dict_fn (pickle_dumps_record env record_dict),
                              Write_file options_dict_fn (pickle_dumps_options env options_dict)]
                       in (case final_validation env options_dict of
                             Inl e \<Rightarrow> (saved, Some e)
                           | Inr ap_text \<Rightarrow>
                               (saved @ [Write_file (path_join model_dir ''val_ap.txt'') ap_text],
                                None)))))"

text \<open>An environment for the examples; its digest is the MD5 digest of the empty string.\<close>

definition demo_env :: "nat siamese_env" where
  "demo_env =
     \<lparr>md5_hexdigest = (\<lambda>s. ''d41d8cd98f00b204e9800998ecf8427e''),
      repr_sorted_items = (\<lambda>d. []),
      model_dir_isdir = (\<lambda>p. False),
      os_makedirs = (\<lambda>p. None),
      train = (\<lambda>d. Inr 0),
      final_validation = (\<lambda>d. Inl ValueError),
      pickle_dumps_record = (\<lambda>r. ''R''),
      pickle_dumps_options = (\<lambda>d. ''O'')\<rparr>"

definition demo_options :: options where
  "demo_options =
     [''data_dir'' \<mapsto> PyStr ''data/buckeye.mfcc'', ''train_tag'' \<mapsto> PyStr ''gt'',
      ''script'' \<mapsto> PyStr ''train_siamese'']"

section \<open>Evaluation on numerals\<close>

lemma replicate_numeral_unfold: "replicate (numeral v) x = x # replicate (numeral v - 1) x"
  by (simp add: numeral_eq_Suc)

lemma str_nat_lt10: "n < 10 \<Longrightarrow> str_nat n = [digit_char n]"
  by (subst str_nat.simps) simp

lemma str_nat_ge10: "\<not> n < 10 \<Longrightarrow> str_nat n = str_nat (n div 10) @ [digit_char (n mod 10)]"
  by (subst str_nat.simps) simp

section \<open>Properties of the float model\<close>

subsection \<open>Evaluation\<close>

lemma bit_length_0: "bit_length 0 = 0"
  by (subst bit_length.simps) simp

lemma bit_length_1: "bit_length 1 = 1"
  by (subst bit_length.simps) (simp add: bit_length_0)

lemma bit_length_Suc_0: "bit_length (Suc 0) = 1"
  using bit_length_1 by simp

lemma bit_length_Bit0: "bit_length (numeral (Num.Bit0 k)) = Suc (bit_length (numeral k))"
  by (subst bit_length.simps) simp

lemma bit_length_Bit1: "bit_length (numeral (Num.Bit1 k)) = Suc (bit_length (numeral k))"
  by (subst bit_length.simps) simp

lemmas bit_length_numeral = bit_length_0 bit_length_1 bit_length_Suc_0 bit_length_Bit0 bit_length_Bit1

lemmas float_eval = binary64_def rounded_def float_exponent_def round_half_even_def pow2_def Let_def
  bit_length_numeral float_mul_def float_add_def float_sub_def float_neg_def float_sqrt_def
  is_nan_def is_inf_def is_zero_def sign_bit_def float_val_def float_lt_def float_eq_def
  float_ge_def float_eq_int_def py_eq_def py_float_def py_round_def py_int_def

subsection \<open>The exponent and the rounding\<close>

lemma bit_length_pos: "0 < n \<Longrightarrow> 0 < bit_length n"
  by (subst bit_length.simps) simp

lemma bit_length_bounds:
  "0 < n \<Longrightarrow> 2 ^ (bit_length n - 1) \<le> n \<and> n < 2 ^ bit_length n"
proof (induction n rule: bit_length.induct)
  case (1 n)
  show ?case
  proof (cases "n = 1")
    case True
    then show ?thesis by (simp add: bit_length_Suc_0)
  next
    case False
    with 1(2) have m: "0 < n div 2" by simp
    from 1(2) have n0: "n \<noteq> 0" by simp
    from 1(1)[OF n0 m] have lo: "2 ^ (bit_length (n div 2) - 1) \<le> n div 2"
      and hi: "n div 2 < 2 ^ bit_length (n div 2)" by simp_all
    have bl: "bit_length n = Suc (bit_length (n div 2))"
      using n0 by (subst bit_length.simps) simp
    from bit_length_pos[OF m] obtain k where k: "bit_length (n div 2) = Suc k"
      by (cases "bit_length (n div 2)") auto
    from lo k have "2 * 2 ^ k \<le> 2 * (n div 2)" by simp
    also have "\<dots> \<le> n" by simp
    finally have a: "2 ^ (bit_length n - 1) \<le> n" by (simp add: bl k)
    from hi have "Suc (n div 2) \<le> 2 ^ bit_length (n div 2)" by simp
    then have "2 * Suc (n div 2) \<le> 2 * 2 ^ bit_length (n div 2)" by simp
    moreover have "n < 2 * Suc (n div 2)" by simp
    ultimately have b: "n < 2 ^ bit_length n" by (simp add: bl)
    from a b show ?thesis by simp
  qed
qed

lemma pow2_nat: "pow2 (int k) = 2 ^ k"
  by (simp add: pow2_def)

lemma pow2_pos: "0 < pow2 e"
  by (simp add: pow2_def)

lemma pow2_powr: "pow2 e = 2 powr (of_int e)"
proof (cases "0 \<le> e")
  case True
  then have "2 powr (of_int e) = (2::real) powr (real (nat e))" by simp
  also have "\<dots> = 2 ^ nat e" by (simp add: powr_realpow)
  finally show ?thesis using True by (simp add: pow2_def)
next
  case False
  then have "2 powr (of_int e) = (2::real) powr (- real (nat (- e)))" by simp
  also have "\<dots> = 1 / 2 ^ nat (- e)" by (simp add: powr_minus powr_realpow divide_inverse)
  finally show ?thesis using False by (simp add: pow2_def)
qed

lemma pow2_neg_nat: "pow2 (- int k) = 1 / 2 ^ k"
  by (simp add: pow2_powr powr_minus powr_realpow divide_inverse)

lemma pow2_add: "pow2 (a + b) = pow2 a * pow2 b"
  by (simp add: pow2_powr powr_add)

lemma pow2_mono: "a \<le> b \<Longrightarrow> pow2 a \<le> pow2 b"
  by (simp add: pow2_powr)

lemma pow2_Suc: "pow2 (e + 1) = 2 * pow2 e"
  using pow2_add[of e 1] pow2_nat[of 1] by simp

lemma float_exponent_bounds:
  assumes "x \<noteq> 0"
  shows "pow2 (float_exponent x) \<le> \<bar>x\<bar> \<and> \<bar>x\<bar> < pow2 (float_exponent x + 1)"
proof (cases "1 \<le> \<bar>x\<bar>")
  case True
  define n where "n = nat \<lfloor>\<bar>x\<bar>\<rfloor>"
  from True have n1: "0 < n" by (simp add: n_def)
  have nle: "real n \<le> \<bar>x\<bar>" and nlt: "\<bar>x\<bar> < real n + 1"
    using True by (simp_all add: n_def)
  from bit_length_pos[OF n1] obtain k where k: "bit_length n = Suc k"
    by (cases "bit_length n") auto
  from bit_length_bounds[OF n1] have "2 ^ k \<le> n" "n < 2 ^ Suc k" by (simp_all add: k)
  then have "(2::real) ^ k \<le> real n" "real n + 1 \<le> 2 ^ Suc k"
    by (metis of_nat_le_iff of_nat_numeral of_nat_power, metis Suc_leI of_nat_Suc of_nat_le_iff of_nat_numeral of_nat_power add.commute)
  with nle nlt have "(2::real) ^ k \<le> \<bar>x\<bar>" "\<bar>x\<bar> < 2 ^ Suc k" by linarith+
  moreover have "float_exponent x = int k"
    using True by (simp add: float_exponent_def n_def[symmetric] k)
  moreover have "pow2 (int k + 1) = 2 ^ Suc k"
    using pow2_nat[of "Suc k"] by (simp add: add.commute)
  ultimately show ?thesis by (simp add: pow2_nat)
next
  case False
  define y where "y = 1 / \<bar>x\<bar>"
  from False assms have y1: "1 < y" by (simp add: y_def)
  define m where "m = nat (\<lceil>y\<rceil> - 1)"
  have c2: "2 \<le> \<lceil>y\<rceil>" using y1 by linarith
  then have m1: "0 < m" by (simp add: m_def)
  have mlt: "real m < y" and mge: "y \<le> real m + 1"
    using c2 by (simp_all add: m_def) linarith+
  from bit_length_pos[OF m1] obtain k where k: "bit_length m = Suc k"
    by (cases "bit_length m") auto
  from bit_length_bounds[OF m1] have "2 ^ k \<le> m" "m < 2 ^ Suc k" by (simp_all add: k)
  then have "(2::real) ^ k \<le> real m" "real m + 1 \<le> 2 ^ Suc k"
    by (metis of_nat_le_iff of_nat_numeral of_nat_power, metis Suc_leI of_nat_Suc of_nat_le_iff of_nat_numeral of_nat_power add.commute)
  with mlt mge have lo: "(2::real) ^ k < y" and hi: "y \<le> 2 ^ Suc k" by linarith+
  have xpos: "0 < \<bar>x\<bar>" using assms by simp
  have xy: "\<bar>x\<bar> = 1 / y" by (simp add: y_def)
  have ypos: "0 < y" using y1 by simp
  from hi ypos have a: "1 / 2 ^ Suc k \<le> \<bar>x\<bar>"
    unfolding xy by (simp add: field_simps)
  from lo ypos have b: "\<bar>x\<bar> < 1 / 2 ^ k"
    unfolding xy by (simp add: field_simps)
  have e: "float_exponent x = - int (Suc k)"
    using False by (simp add: float_exponent_def y_def[symmetric] m_def[symmetric] k)
  have "pow2 (- int (Suc k) + 1) = 1 / 2 ^ k"
    using pow2_neg_nat[of k] by simp
  with a b show ?thesis
    unfolding e using pow2_neg_nat[of "Suc k"] by simp
qed

lemma round_half_even_error: "\<bar>of_int (round_half_even q) - q\<bar> \<le> 1 / 2"
  unfolding round_half_even_def Let_def by (auto simp: abs_if) linarith+

lemma round_half_even_int [simp]: "round_half_even (of_int k) = k"
  by (simp add: round_half_even_def)

lemma round_half_even_mono:
  assumes "p \<le> q"
  shows "round_half_even p \<le> round_half_even q"
proof (cases "\<lfloor>p\<rfloor> = \<lfloor>q\<rfloor>")
  case True
  with assms show ?thesis
    unfolding round_half_even_def Let_def by auto
next
  case False
  with assms have "\<lfloor>p\<rfloor> < \<lfloor>q\<rfloor>" by (simp add: floor_mono order.strict_iff_order)
  then have "\<lfloor>p\<rfloor> + 1 \<le> \<lfloor>q\<rfloor>" by simp
  moreover have "round_half_even p \<le> \<lfloor>p\<rfloor> + 1"
    unfolding round_half_even_def Let_def by auto
  moreover have "\<lfloor>q\<rfloor> \<le> round_half_even q"
    unfolding round_half_even_def Let_def by auto
  ultimately show ?thesis by linarith
qed

lemma round_half_even_minus: "round_half_even (- q) = - round_half_even q"
proof (cases "q = of_int \<lfloor>q\<rfloor>")
  case True
  then obtain k where "q = of_int k" by metis
  then show ?thesis
    using round_half_even_int[of "- k"] by simp
next
  case False
  then have c: "\<lfloor>- q\<rfloor> = - \<lfloor>q\<rfloor> - 1"
    by (metis ceiling_altdef ceiling_def add_diff_cancel_right' diff_minus_eq_add minus_diff_eq uminus_add_conv_diff)
  show ?thesis
    unfolding round_half_even_def Let_def c using False by auto
qed

lemma pow2_less_cancel: "pow2 a < pow2 b \<Longrightarrow> a < b"
  by (simp add: pow2_powr)

lemma pow2_diff: "pow2 (a - b) = pow2 a / pow2 b"
  by (simp add: pow2_powr powr_diff)

lemma pow2_52: "pow2 52 = 2 ^ 52" and pow2_53: "pow2 53 = 2 ^ 53"
  by (simp_all add: pow2_def)

lemma round_half_even_nonneg: "0 \<le> q \<Longrightarrow> 0 \<le> round_half_even q"
  using round_half_even_mono[of 0 q] round_half_even_int[of 0] by simp

lemma float_exponent_minus: "float_exponent (- x) = float_exponent x"
  by (simp add: float_exponent_def)

lemma rounded_minus: "rounded (- x) = - rounded x"
  by (simp add: rounded_def Let_def float_exponent_minus round_half_even_minus)

lemma rounded_nonneg: "0 \<le> x \<Longrightarrow> 0 \<le> rounded x"
  by (simp add: rounded_def Let_def round_half_even_nonneg pow2_pos less_imp_le)

lemma rounded_error:
  "\<bar>rounded x - x\<bar> \<le> pow2 (max (float_exponent x) (- 1022) - 52) / 2"
proof -
  define u where "u = pow2 (max (float_exponent x) (- 1022) - 52)"
  have u: "0 < u" by (simp add: u_def pow2_pos)
  have "rounded x - x = (of_int (round_half_even (x / u)) - x / u) * u"
    using u by (simp add: rounded_def Let_def u_def[symmetric] field_simps)
  then have "\<bar>rounded x - x\<bar> = \<bar>of_int (round_half_even (x / u)) - x / u\<bar> * u"
    using u by (simp add: abs_mult)
  also have "\<dots> \<le> 1 / 2 * u"
    using round_half_even_error[of "x / u"] u by (intro mult_right_mono) simp_all
  finally show ?thesis by (simp add: u_def)
qed

text \<open>Rounding to binary64 is monotone.\<close>

lemma rounded_upper:
  assumes "0 < x"
  shows "rounded x \<le> pow2 (max (float_exponent x) (- 1022) + 1)"
proof -
  define e where "e = max (float_exponent x) (- 1022)"
  define u where "u = pow2 (e - 52)"
  have u: "0 < u" by (simp add: u_def pow2_pos)
  from assms float_exponent_bounds[of x] have "x < pow2 (float_exponent x + 1)" by simp
  also have "\<dots> \<le> pow2 (e + 1)" by (rule pow2_mono) (simp add: e_def)
  finally have "x < pow2 (e + 1)" .
  moreover have pe: "pow2 (e + 1) = 2 ^ 53 * u"
  proof -
    have "e + 1 = (e - 52) + 53" by simp
    then have "pow2 (e + 1) = pow2 (e - 52) * pow2 53" by (simp only: pow2_add)
    then show ?thesis by (simp add: u_def pow2_53)
  qed
  ultimately have "x / u \<le> of_int (2 ^ 53)" using u by (simp add: field_simps)
  from round_half_even_mono[OF this] have "round_half_even (x / u) \<le> 2 ^ 53"
    by (simp only: round_half_even_int)
  then have "of_int (round_half_even (x / u)) * u \<le> 2 ^ 53 * u"
    using u by (intro mult_right_mono) (simp_all add: of_int_le_iff[of _ "2 ^ 53", simplified])
  then show ?thesis
    using pe by (simp add: rounded_def Let_def e_def[symmetric] u_def[symmetric])
qed

lemma rounded_lower:
  assumes "0 < x" and "- 1022 < float_exponent x"
  shows "pow2 (float_exponent x) \<le> rounded x"
proof -
  define e where "e = float_exponent x"
  define u where "u = pow2 (e - 52)"
  have u: "0 < u" by (simp add: u_def pow2_pos)
  have m: "max e (- 1022) = e" using assms(2) by (simp add: e_def)
  from assms float_exponent_bounds[of x] have "pow2 e \<le> x" by (simp add: e_def)
  moreover have pe: "pow2 e = 2 ^ 52 * u"
  proof -
    have "e = (e - 52) + 52" by simp
    then have "pow2 e = pow2 (e - 52) * pow2 52" by (metis pow2_add)
    then show ?thesis by (simp add: u_def pow2_52)
  qed
  ultimately have "of_int (2 ^ 52) \<le> x / u" using u by (simp add: field_simps)
  from round_half_even_mono[OF this] have "2 ^ 52 \<le> round_half_even (x / u)"
    by (simp only: round_half_even_int)
  then have "2 ^ 52 * u \<le> of_int (round_half_even (x / u)) * u"
    using u by (intro mult_right_mono) (simp_all add: of_int_le_iff[of "2 ^ 52", simplified])
  then show ?thesis
    using pe by (simp add: rounded_def Let_def e_def[symmetric] m u_def[symmetric])
qed

lemma rounded_mono_pos:
  assumes "0 < x" and "x \<le> y"
  shows "rounded x \<le> rounded y"
proof -
  define ex where "ex = max (float_exponent x) (- 1022)"
  define ey where "ey = max (float_exponent y) (- 1022)"
  have y: "0 < y" using assms by simp
  from assms(1) y float_exponent_bounds[of x] float_exponent_bounds[of y]
  have "pow2 (float_exponent x) \<le> x" "y < pow2 (float_exponent y + 1)" by simp_all
  with assms(2) have "pow2 (float_exponent x) < pow2 (float_exponent y + 1)" by linarith
  from pow2_less_cancel[OF this] have fe: "float_exponent x \<le> float_exponent y" by simp
  then have le: "ex \<le> ey" by (simp add: ex_def ey_def)
  show ?thesis
  proof (cases "ex = ey")
    case True
    define u where "u = pow2 (ex - 52)"
    have u: "0 < u" by (simp add: u_def pow2_pos)
    from assms(2) u have "x / u \<le> y / u" by (simp add: divide_right_mono)
    from round_half_even_mono[OF this] have "of_int (round_half_even (x / u)) * u
        \<le> of_int (round_half_even (y / u)) * u"
      using u by (intro mult_right_mono) simp_all
    then show ?thesis
      using True by (simp add: rounded_def Let_def ex_def[symmetric] ey_def[symmetric] u_def)
  next
    case False
    with le have lt: "ex < ey" by simp
    then have big: "- 1022 < float_exponent y" and eyy: "ey = float_exponent y"
      by (auto simp: ex_def ey_def)
    have "rounded x \<le> pow2 (ex + 1)"
      using rounded_upper[OF assms(1)] by (simp add: ex_def)
    also have "\<dots> \<le> pow2 ey" using lt by (intro pow2_mono) simp
    also have "\<dots> \<le> rounded y" using rounded_lower[OF y big] by (simp add: eyy)
    finally show ?thesis .
  qed
qed

lemma rounded_zero: "rounded 0 = 0"
  by (simp add: rounded_def Let_def round_half_even_def)

lemma rounded_mono:
  assumes "x \<le> y"
  shows "rounded x \<le> rounded y"
proof -
  consider "0 < x" | "y < 0" | "x \<le> 0" "0 \<le> y" by linarith
  then show ?thesis
  proof cases
    case 1
    then show ?thesis using assms by (rule rounded_mono_pos)
  next
    case 2
    then have "0 < - y" "- y \<le> - x" using assms by simp_all
    from rounded_mono_pos[OF this] show ?thesis by (simp add: rounded_minus)
  next
    case 3
    from 3(1) have "0 \<le> - x" by simp
    from rounded_nonneg[OF this] have "rounded x \<le> 0" by (simp add: rounded_minus)
    with rounded_nonneg[OF 3(2)] show ?thesis by simp
  qed
qed

section \<open>Properties of the SCP writer\<close>

lemmas scp_eval = scp_step_def frame_def scp_line_def fmt_06d_def zfill_def str_int_def
  digit_char_def path_join_def str_nat_lt10 str_nat_ge10 replicate_numeral_unfold
  truncation_warning_def scp_entry_def scp_warning_def claimed_entry_def claimed_warning_def
  py_str_def list_line_def

lemma write_list_trace: "write_list str_float segs f = f @ map (list_line str_float) segs"
  by (induction segs arbitrary: f) auto

lemma scp_step_trace:
  assumes "scp_step fd lengths seg io0 = Inr io"
  shows "written io = written io0 @ map (\<lambda>(b, s, e). scp_line fd b s e) (scp_entry lengths seg)
       \<and> printed io = printed io0 @ scp_warning lengths seg"
  using assms
  by (cases seg)
    (auto simp: scp_step_def scp_entry_def scp_warning_def split: sum.splits option.splits if_splits)

lemma write_scp_trace:
  "write_scp fd lengths segs io0 = Inr io \<Longrightarrow>
     written io = written io0 @ map (\<lambda>(b, s, e). scp_line fd b s e) (concat (map (scp_entry lengths) segs))
     \<and> printed io = printed io0 @ concat (map (scp_warning lengths) segs)"
proof (induction segs arbitrary: io0)
  case Nil
  then show ?case by simp
next
  case (Cons seg segs)
  from Cons.prems obtain io1 where s1: "scp_step fd lengths seg io0 = Inr io1"
    and r: "write_scp fd lengths segs io1 = Inr io"
    by (auto split: sum.splits)
  from scp_step_trace[OF s1] Cons.IH[OF r] show ?case by simp
qed

text \<open>
  The loop returns where every time has a frame and every basename a length; with frames
  for all times, it raises \<open>KeyError\<close> where a basename has no length.
\<close>

lemma scp_step_total:
  assumes "frame st = Inr s" and "frame et = Inr e" and "lengths b = Some n"
  shows "\<exists>io. scp_step fd lengths (b, st, et) io0 = Inr io"
  using assms by (simp add: scp_step_def)

lemma write_scp_total:
  "\<forall>(b, st, et) \<in> set segs. lengths b \<noteq> None \<and> (\<exists>s. frame st = Inr s) \<and> (\<exists>e. frame et = Inr e) \<Longrightarrow>
     \<exists>io. write_scp fd lengths segs io0 = Inr io"
proof (induction segs arbitrary: io0)
  case Nil
  then show ?case by simp
next
  case (Cons seg segs)
  obtain b st et where seg: "seg = (b, st, et)" by (cases seg) auto
  from Cons.prems seg obtain n s e where "lengths b = Some n" "frame st = Inr s" "frame et = Inr e"
    by auto
  from scp_step_total[where lengths = lengths and b = b, OF this(2,3,1)] obtain io1 where "scp_step fd lengths seg io0 = Inr io1"
    unfolding seg by blast
  moreover from Cons.prems have
    "\<forall>(b, st, et) \<in> set segs. lengths b \<noteq> None \<and> (\<exists>s. frame st = Inr s) \<and> (\<exists>e. frame et = Inr e)"
    by simp
  ultimately show ?case using Cons.IH by simp
qed

lemma write_scp_key_error:
  "\<forall>(b, st, et) \<in> set segs. (\<exists>s. frame st = Inr s) \<and> (\<exists>e. frame et = Inr e) \<Longrightarrow>
   \<exists>(b, st, et) \<in> set segs. lengths b = None \<Longrightarrow>
     write_scp fd lengths segs io0 = Inl KeyError"
proof (induction segs arbitrary: io0)
  case Nil
  then show ?case by simp
next
  case (Cons seg segs)
  obtain b st et where seg: "seg = (b, st, et)" by (cases seg) auto
  from Cons.prems(1) seg obtain s e where fr: "frame st = Inr s" "frame et = Inr e"
    by auto
  show ?case
  proof (cases "lengths b")
    case None
    with fr show ?thesis by (simp add: seg scp_step_def)
  next
    case (Some n)
    from scp_step_total[where lengths = lengths and b = b, OF fr Some] obtain io1 where s1: "scp_step fd lengths seg io0 = Inr io1"
      unfolding seg by blast
    from Cons.prems(2) Some seg have "\<exists>(b, st, et) \<in> set segs. lengths b = None" by auto
    moreover from Cons.prems(1) have
      "\<forall>(b, st, et) \<in> set segs. (\<exists>s. frame st = Inr s) \<and> (\<exists>e. frame et = Inr e)" by simp
    ultimately have "write_scp fd lengths segs io1 = Inl KeyError" by (rule Cons.IH[rotated])
    with s1 show ?thesis by simp
  qed
qed

text \<open>
  \<open>int(round(p))\<close> is an integer nearest to the float \<open>p\<close>, the one away from zero where
  there are two; it returns for every \<open>p\<close> but the infinities and the NaN.
\<close>

lemma py_int_round:
  assumes "py_int (py_round p) = Inr k"
  shows "\<bar>of_int k - float_val p\<bar> \<le> 1 / 2
       \<and> (\<bar>of_int k - float_val p\<bar> = 1 / 2 \<longrightarrow> \<bar>float_val p\<bar> < \<bar>of_int k\<bar>)"
proof (cases p)
  case (Finite r)
  show ?thesis
  proof (cases "0 \<le> r")
    case True
    with assms Finite have k: "k = \<lfloor>r + 1 / 2\<rfloor>"
      by (auto simp: py_round_def py_int_def split: if_splits)
    have "of_int \<lfloor>r + 1 / 2\<rfloor> \<le> r + 1 / 2" "r + 1 / 2 < of_int \<lfloor>r + 1 / 2\<rfloor> + 1"
      by linarith+
    with True show ?thesis by (simp add: Finite k float_val_def abs_if) linarith
  next
    case False
    define v where "v = \<lceil>r - 1 / 2\<rceil>"
    have v: "r - 1 / 2 \<le> of_int v" "of_int v - 1 < r - 1 / 2"
      unfolding v_def by linarith+
    from False v have v0: "v \<le> 0" by linarith
    from assms Finite False have "k = v"
      using v0 by (auto simp: py_round_def py_int_def Let_def v_def[symmetric] split: if_splits)
    with False v show ?thesis by (simp add: Finite float_val_def abs_if)
  qed
qed (use assms in \<open>auto simp: py_round_def py_int_def float_val_def\<close>)

lemma py_int_round_returns:
  "(\<exists>k. py_int (py_round p) = Inr k) \<longleftrightarrow> \<not> is_nan p \<and> \<not> is_inf p"
  by (cases p) (auto simp: py_round_def py_int_def is_nan_def is_inf_def Let_def)

lemma frame_nearest:
  assumes "frame t = Inr k"
  shows "\<exists>f. py_float t = Inr f
           \<and> \<bar>of_int k - float_val (float_mul f (Finite 100))\<bar> \<le> 1 / 2
           \<and> (\<bar>of_int k - float_val (float_mul f (Finite 100))\<bar> = 1 / 2
                \<longrightarrow> \<bar>float_val (float_mul f (Finite 100))\<bar> < \<bar>of_int k\<bar>)"
proof -
  from assms obtain f where f: "py_float t = Inr f"
    and k: "py_int (py_round (float_mul f (Finite 100))) = Inr k"
    by (auto simp: frame_def split: sum.splits)
  from py_int_round[OF k] f show ?thesis by blast
qed

lemma fmt_06d_nonneg: "0 \<le> k \<Longrightarrow> fmt_06d k = replicate (6 - length (str_int k)) CHR ''0'' @ str_int k"
  by (simp add: fmt_06d_def zfill_def str_int_def)

lemma frame_half: "frame (Floating (Finite (1 / 2))) = Inr 50"
  by (simp add: frame_def float_eval)

lemma frame_one: "frame (Floating (Finite 1)) = Inr 100"
  by (simp add: frame_def float_eval)

lemma frame_minus_one: "frame (Integer (- 1)) = Inr (- 100)"
  by (simp add: frame_def float_eval)

text \<open>
  The product is the float product: the float nearest to \<open>0.015\<close> is below \<open>0.015\<close>, its
  float product with \<open>100\<close> is \<open>1.5\<close>, and its frame is \<open>2\<close>.
\<close>

lemma frame_float_product:
  "binary64 (15 / 1000) = Finite (8646911284551352 / 2 ^ 59)"
  "8646911284551352 / 2 ^ 59 * 100 < (3 / 2 :: real)"
  "float_mul (Finite (8646911284551352 / 2 ^ 59)) (Finite 100) = Finite (3 / 2)"
  "frame (Floating (Finite (8646911284551352 / 2 ^ 59))) = Inr 2"
  by (simp_all add: frame_def float_eval)

lemma frame_nan: "frame (Floating NaN) = Inl ValueError"
  by (simp add: frame_def float_eval)

lemma frame_inf: "frame (Floating PosInf) = Inl OverflowError"
  by (simp add: frame_def float_eval)

text \<open>
  The frame of a finite float: the product with \<open>100\<close> rounded to binary64, then rounded
  to an integer. It exists for every finite float of magnitude at most \<open>10^300\<close>, and a
  later time has a later or the same frame.
\<close>

lemma float_mul_100_val:
  assumes "\<not> is_nan a" and "\<not> is_inf a" and "\<not> is_inf (float_mul a (Finite 100))"
  shows "float_val (float_mul a (Finite 100)) = rounded (float_val a * 100)"
  using assms
  by (cases a)
    (auto simp: float_mul_def binary64_def is_nan_def is_inf_def is_zero_def float_val_def
      rounded_zero Let_def split: if_splits)

lemma py_int_round_val:
  assumes "py_int (py_round p) = Inr k"
  shows "k = (if 0 \<le> float_val p then \<lfloor>float_val p + 1 / 2\<rfloor> else \<lceil>float_val p - 1 / 2\<rceil>)"
  using assms
  by (cases p) (auto simp: py_round_def py_int_def float_val_def Let_def split: if_splits)

lemma frame_finite_val:
  assumes "frame (Floating a) = Inr k" and "\<not> is_nan a" and "\<not> is_inf a"
  shows "k = (if 0 \<le> rounded (float_val a * 100) then \<lfloor>rounded (float_val a * 100) + 1 / 2\<rfloor>
              else \<lceil>rounded (float_val a * 100) - 1 / 2\<rceil>)"
proof -
  from assms(1) have k: "py_int (py_round (float_mul a (Finite 100))) = Inr k"
    by (simp add: frame_def py_float_def)
  then have "\<not> is_inf (float_mul a (Finite 100))"
    using py_int_round_returns[of "float_mul a (Finite 100)"] by blast
  from float_mul_100_val[OF assms(2,3) this] py_int_round_val[OF k] show ?thesis by simp
qed

lemma frame_mono:
  assumes "frame (Floating a) = Inr s" and "frame (Floating b) = Inr e"
    and "\<not> is_nan a" "\<not> is_inf a" "\<not> is_nan b" "\<not> is_inf b"
    and "float_val a \<le> float_val b"
  shows "s \<le> e"
proof -
  define p where "p = rounded (float_val a * 100)"
  define q where "q = rounded (float_val b * 100)"
  have pq: "p \<le> q" unfolding p_def q_def using assms(7) by (intro rounded_mono) simp
  have s: "s = (if 0 \<le> p then \<lfloor>p + 1 / 2\<rfloor> else \<lceil>p - 1 / 2\<rceil>)"
    using frame_finite_val[OF assms(1,3,4)] by (simp add: p_def)
  have e: "e = (if 0 \<le> q then \<lfloor>q + 1 / 2\<rfloor> else \<lceil>q - 1 / 2\<rceil>)"
    using frame_finite_val[OF assms(2,5,6)] by (simp add: q_def)
  show ?thesis
  proof (cases "0 \<le> p")
    case True
    with pq have "0 \<le> q" by simp
    with True pq show ?thesis unfolding s e by (simp add: floor_mono)
  next
    case False
    show ?thesis
    proof (cases "0 \<le> q")
      case True
      have "\<lceil>p - 1 / 2\<rceil> \<le> 0" using False by (simp add: ceiling_le_iff)
      moreover have "0 \<le> \<lfloor>q + 1 / 2\<rfloor>" using True by simp
      moreover have "s = \<lceil>p - 1 / 2\<rceil>" "e = \<lfloor>q + 1 / 2\<rfloor>"
        using False True by (simp_all add: s e)
      ultimately show ?thesis by linarith
    next
      case q: False
      with False pq show ?thesis unfolding s e by (simp add: ceiling_mono)
    qed
  qed
qed

lemma frame_returns:
  assumes "\<not> is_nan a" and "\<not> is_inf a" and "\<bar>float_val a\<bar> \<le> 10 ^ 300"
  shows "\<exists>k. frame (Floating a) = Inr k"
proof -
  define x where "x = float_val a * 100"
  have xb: "\<bar>x\<bar> < pow2 1023"
  proof -
    have "\<bar>x\<bar> \<le> 10 ^ 300 * 100" using assms(3) by (simp add: x_def abs_mult)
    also have "\<dots> < pow2 1023" by (simp add: pow2_def)
    finally show ?thesis .
  qed
  have fin: "\<bar>rounded x\<bar> < pow2 1024"
  proof (cases "x = 0")
    case True
    then show ?thesis by (simp add: rounded_zero pow2_pos)
  next
    case False
    from float_exponent_bounds[OF False] xb have "pow2 (float_exponent x) < pow2 1023" by linarith
    from pow2_less_cancel[OF this] have e: "max (float_exponent x) (- 1022) + 1 \<le> 1023" by simp
    have "\<bar>rounded x\<bar> = rounded \<bar>x\<bar>"
      using rounded_nonneg[of x] rounded_nonneg[of "- x"] rounded_minus[of x]
      by (cases "0 \<le> x") (simp_all add: abs_if)
    also have "\<dots> \<le> pow2 (max (float_exponent \<bar>x\<bar>) (- 1022) + 1)"
      using False by (intro rounded_upper) simp
    also have "float_exponent \<bar>x\<bar> = float_exponent x"
      by (simp add: float_exponent_def)
    also have "pow2 (max (float_exponent x) (- 1022) + 1) \<le> pow2 1023"
      using e by (rule pow2_mono)
    also have "\<dots> < pow2 1024" by (simp add: pow2_def)
    finally show ?thesis .
  qed
  have "\<not> is_nan (float_mul a (Finite 100)) \<and> \<not> is_inf (float_mul a (Finite 100))"
    using assms(1,2) fin
    by (cases a)
      (auto simp: float_mul_def binary64_def is_nan_def is_inf_def is_zero_def float_val_def
        x_def Let_def)
  then show ?thesis
    using py_int_round_returns[of "float_mul a (Finite 100)"]
    by (simp add: frame_def py_float_def)
qed

text \<open>
  Claim C7, amended. The list file gets one line \<open>utterance start end\<close> per segment. Where
  every basename is a key of \<open>lengths\<close> and every time has a frame, the SCP loop returns
  and the SCP file gets one line per kept segment,
  \<open>basename_SSSSSS-EEEEEE.fbank=<feat_dir>/basename.fbank[start,end]\<close> with \<open><feat_dir>/...\<close>
  the \<open>os.path.join\<close>: a segment is kept unless its end frame and its start frame both
  exceed \<open>lengths[basename]\<close>, \<open>start\<close> is the frame of the start time, and \<open>end\<close> is the
  frame of the end time, or \<open>lengths[basename] - 1\<close> when that frame exceeds
  \<open>lengths[basename]\<close>. The frame of a time is an integer nearest to the float product of
  the time and \<open>100\<close>, the one away from zero where there are two. Where every time has a
  frame and some basename is not a key, the loop raises \<open>KeyError\<close>. The label pads both
  numbers with zeros to six digits.
\<close>

theorem list_and_scp_format:
  "write_list str_float segs [] =
     map (\<lambda>(utt, start, end).
            utt @ '' '' @ py_str str_float start @ '' '' @ py_str str_float end @ [CHR 0x0A]) segs
   \<and> ((\<forall>(b, st, et) \<in> set segs.
          lengths b \<noteq> None \<and> (\<exists>s. frame st = Inr s) \<and> (\<exists>e. frame et = Inr e)) \<longrightarrow>
        (\<exists>io. write_scp feat_dir lengths segs \<lparr>written = [], printed = []\<rparr> = Inr io
          \<and> written io =
              map (\<lambda>(b, start, end).
                     b @ ''_'' @ fmt_06d start @ ''-'' @ fmt_06d end @ ''.fbank'' @ ''=''
                       @ path_join feat_dir (b @ ''.fbank'') @ ''['' @ str_int start @ '',''
                       @ str_int end @ '']'' @ [CHR 0x0A])
                  (concat (map (scp_entry lengths) segs))))
   \<and> (\<forall>b st et s e n. frame st = Inr s \<longrightarrow> frame et = Inr e \<longrightarrow> lengths b = Some n \<longrightarrow>
         scp_entry lengths (b, st, et)
           = (if n < e \<and> n < s then [] else [(b, s, if n < e then n - 1 else e)]))
   \<and> (\<forall>t k. frame t = Inr k \<longrightarrow>
         (\<exists>f. py_float t = Inr f
            \<and> \<bar>of_int k - float_val (float_mul f (Finite 100))\<bar> \<le> 1 / 2
            \<and> (\<bar>of_int k - float_val (float_mul f (Finite 100))\<bar> = 1 / 2
                 \<longrightarrow> \<bar>float_val (float_mul f (Finite 100))\<bar> < \<bar>of_int k\<bar>)))
   \<and> ((\<forall>(b, st, et) \<in> set segs. (\<exists>s. frame st = Inr s) \<and> (\<exists>e. frame et = Inr e))
        \<and> (\<exists>(b, st, et) \<in> set segs. lengths b = None) \<longrightarrow>
        write_scp feat_dir lengths segs \<lparr>written = [], printed = []\<rparr> = Inl KeyError)
   \<and> (\<forall>k. 0 \<le> k \<longrightarrow> fmt_06d k = replicate (6 - length (str_int k)) CHR ''0'' @ str_int k)"
proof (intro conjI impI allI)
  have "list_line str_float = (\<lambda>(utt, start, end).
      utt @ '' '' @ py_str str_float start @ '' '' @ py_str str_float end @ [CHR 0x0A])"
    by (auto simp: list_line_def fun_eq_iff)
  then show "write_list str_float segs [] =
     map (\<lambda>(utt, start, end).
            utt @ '' '' @ py_str str_float start @ '' '' @ py_str str_float end @ [CHR 0x0A]) segs"
    by (simp add: write_list_trace)
next
  assume "\<forall>(b, st, et) \<in> set segs.
          lengths b \<noteq> None \<and> (\<exists>s. frame st = Inr s) \<and> (\<exists>e. frame et = Inr e)"
  from write_scp_total[OF this] obtain io where
    run: "write_scp feat_dir lengths segs \<lparr>written = [], printed = []\<rparr> = Inr io"
    by blast
  have "(\<lambda>(b, s, e). scp_line feat_dir b s e) =
        (\<lambda>(b, start, end).
                     b @ ''_'' @ fmt_06d start @ ''-'' @ fmt_06d end @ ''.fbank'' @ ''=''
                       @ path_join feat_dir (b @ ''.fbank'') @ ''['' @ str_int start @ '',''
                       @ str_int end @ '']'' @ [CHR 0x0A])"
    by (auto simp: fun_eq_iff scp_line_def Let_def)
  with write_scp_trace[OF run] have "written io =
              map (\<lambda>(b, start, end).
                     b @ ''_'' @ fmt_06d start @ ''-'' @ fmt_06d end @ ''.fbank'' @ ''=''
                       @ path_join feat_dir (b @ ''.fbank'') @ ''['' @ str_int start @ '',''
                       @ str_int end @ '']'' @ [CHR 0x0A])
                  (concat (map (scp_entry lengths) segs))"
    by simp
  with run show "\<exists>io. write_scp feat_dir lengths segs \<lparr>written = [], printed = []\<rparr> = Inr io
          \<and> written io =
              map (\<lambda>(b, start, end).
                     b @ ''_'' @ fmt_06d start @ ''-'' @ fmt_06d end @ ''.fbank'' @ ''=''
                       @ path_join feat_dir (b @ ''.fbank'') @ ''['' @ str_int start @ '',''
                       @ str_int end @ '']'' @ [CHR 0x0A])
                  (concat (map (scp_entry lengths) segs))"
    by blast
next
  fix b st et s e n
  assume "frame st = Inr s" "frame et = Inr e" "lengths b = Some n"
  then show "scp_entry lengths (b, st, et)
           = (if n < e \<and> n < s then [] else [(b, s, if n < e then n - 1 else e)])"
    by (simp add: scp_entry_def)
next
  fix t k assume "frame t = Inr k"
  then show "\<exists>f. py_float t = Inr f
            \<and> \<bar>of_int k - float_val (float_mul f (Finite 100))\<bar> \<le> 1 / 2
            \<and> (\<bar>of_int k - float_val (float_mul f (Finite 100))\<bar> = 1 / 2
                 \<longrightarrow> \<bar>float_val (float_mul f (Finite 100))\<bar> < \<bar>of_int k\<bar>)"
    by (rule frame_nearest)
next
  assume "(\<forall>(b, st, et) \<in> set segs. (\<exists>s. frame st = Inr s) \<and> (\<exists>e. frame et = Inr e))
        \<and> (\<exists>(b, st, et) \<in> set segs. lengths b = None)"
  then show "write_scp feat_dir lengths segs \<lparr>written = [], printed = []\<rparr> = Inl KeyError"
    using write_scp_key_error by blast
next
  fix k :: int assume "0 \<le> k"
  then show "fmt_06d k = replicate (6 - length (str_int k)) CHR ''0'' @ str_int k"
    by (rule fmt_06d_nonneg)
qed

theorem list_and_scp_format_witness:
  "write_list (\<lambda>f. if f = Finite 1 then ''1.0'' else ''0.5'')
     [(''a'', Floating (Finite (1 / 2)), Floating (Finite 1))] [] = [''a 0.5 1.0'' @ [CHR 0x0A]]
   \<and> (\<exists>io. write_scp ''/f'' [''a'' \<mapsto> 60] [(''a'', Floating (Finite (1 / 2)), Floating (Finite 1))]
              \<lparr>written = [], printed = []\<rparr> = Inr io
         \<and> written io = [''a_000050-000059.fbank=/f/a.fbank[50,59]'' @ [CHR 0x0A]])
   \<and> frame (Floating (Finite (1 / 2))) = Inr 50
   \<and> frame (Floating (Finite 1)) = Inr 100
   \<and> write_scp ''/f'' [''b'' \<mapsto> 60] [(''a'', Floating (Finite (1 / 2)), Floating (Finite 1))]
              \<lparr>written = [], printed = []\<rparr> = Inl KeyError
   \<and> fmt_06d 50 = ''000050''"
proof -
  have entry: "scp_entry [''a'' \<mapsto> 60] (''a'', Floating (Finite (1 / 2)), Floating (Finite 1))
      = [(''a'', 50, 59)]"
    by (simp add: scp_entry_def frame_half frame_one)
  show ?thesis
    using list_and_scp_format[of "\<lambda>f. if f = Finite 1 then ''1.0'' else ''0.5''"
        "[(''a'', Floating (Finite (1 / 2)), Floating (Finite 1))]" "[''a'' \<mapsto> 60]" "''/f''"]
      list_and_scp_format[of "\<lambda>f. if f = Finite 1 then ''1.0'' else ''0.5''"
        "[(''a'', Floating (Finite (1 / 2)), Floating (Finite 1))]" "[''b'' \<mapsto> 60]" "''/f''"]
      frame_half frame_one
    by (simp add: entry fmt_06d_def zfill_def str_int_def
        digit_char_def path_join_def str_nat_lt10 str_nat_ge10 replicate_numeral_unfold
        py_str_def)
qed

text \<open>
  Claim C7 as stated fails on a truncated segment: with 60 frames, the segment from 0.5 s
  to 1 s is written with end 59, not with the frame 100 of its end time.
\<close>

theorem scp_truncated_end_counterexample:
  "frame (Floating (Finite 1)) = Inr 100 \<and>
   write_scp ''/f'' [''a'' \<mapsto> 60] [(''a'', Floating (Finite (1 / 2)), Floating (Finite 1))]
     \<lparr>written = [], printed = []\<rparr>
   = Inr \<lparr>written = [''a_000050-000059.fbank=/f/a.fbank[50,59]'' @ [CHR 0x0A]], printed = []\<rparr>"
  by (simp add: frame_half frame_one scp_step_def scp_line_def fmt_06d_def zfill_def str_int_def
      digit_char_def path_join_def str_nat_lt10 str_nat_ge10 replicate_numeral_unfold)

lemma claimed_entry_eq:
  assumes "frame st = Inr s" and "frame et = Inr e" and "s \<le> e"
  shows "scp_entry lengths (b, st, et) = claimed_entry lengths (b, st, et)
       \<and> scp_warning lengths (b, st, et) = claimed_warning lengths (b, st, et)"
  using assms
  by (auto simp: scp_entry_def claimed_entry_def scp_warning_def claimed_warning_def
      split: option.splits)

lemma claimed_entry_bound:
  "(b, s, e) \<in> set (claimed_entry lengths seg) \<Longrightarrow> \<exists>n. lengths b = Some n \<and> e \<le> n"
proof -
  assume a: "(b, s, e) \<in> set (claimed_entry lengths seg)"
  obtain b' st et where seg: "seg = (b', st, et)" by (cases seg) auto
  show ?thesis
  proof (cases "frame st")
    case Inl
    with a show ?thesis by (simp add: seg claimed_entry_def)
  next
    case s: (Inr s')
    show ?thesis
    proof (cases "frame et")
      case Inl
      with a s show ?thesis by (simp add: seg claimed_entry_def)
    next
      case e: (Inr e')
      show ?thesis
      proof (cases "lengths b'")
        case None
        with a s e show ?thesis by (simp add: seg claimed_entry_def)
      next
        case (Some n)
        with a s e show ?thesis by (auto simp: seg claimed_entry_def split: if_splits)
      qed
    qed
  qed
qed

text \<open>
  Claim C8. Take segments whose start frame is at most their end frame (as it is for
  every segment whose start time is at most its end time, by \<open>frame_mono\<close>), with every
  basename a key of \<open>lengths\<close>. The SCP loop returns; a segment whose start frame exceeds
  \<open>lengths[basename]\<close> is skipped with the truncation warning instead of being written;
  every other segment is written, with end \<open>lengths[basename] - 1\<close> when its end frame
  exceeds \<open>lengths[basename]\<close> and with its end frame otherwise; and every line written
  has \<open>end \<le> lengths[basename]\<close>.
\<close>

theorem scp_written_end_bounded:
  assumes "\<forall>(b, st, et) \<in> set segs.
             \<exists>n s e. lengths b = Some n \<and> frame st = Inr s \<and> frame et = Inr e \<and> s \<le> e"
  shows "\<exists>io. write_scp feat_dir lengths segs \<lparr>written = [], printed = []\<rparr> = Inr io
       \<and> written io = map (\<lambda>(b, start, end). scp_line feat_dir b start end)
                        (concat (map (claimed_entry lengths) segs))
       \<and> printed io = concat (map (claimed_warning lengths) segs)
       \<and> (\<forall>(b, start, end) \<in> set (concat (map (claimed_entry lengths) segs)).
             \<exists>n. lengths b = Some n \<and> end \<le> n)"
proof -
  from assms have "\<forall>(b, st, et) \<in> set segs.
      lengths b \<noteq> None \<and> (\<exists>s. frame st = Inr s) \<and> (\<exists>e. frame et = Inr e)"
    by fastforce
  from write_scp_total[OF this] obtain io where
    run: "write_scp feat_dir lengths segs \<lparr>written = [], printed = []\<rparr> = Inr io"
    by blast
  have same: "scp_entry lengths seg = claimed_entry lengths seg
      \<and> scp_warning lengths seg = claimed_warning lengths seg" if "seg \<in> set segs" for seg
  proof -
    obtain b st et where seg: "seg = (b, st, et)" by (cases seg) auto
    with assms that obtain s e where "frame st = Inr s" "frame et = Inr e" "s \<le> e"
      by fastforce
    from claimed_entry_eq[OF this] show ?thesis by (simp add: seg)
  qed
  then have "map (scp_entry lengths) segs = map (claimed_entry lengths) segs"
    and "map (scp_warning lengths) segs = map (claimed_warning lengths) segs"
    by simp_all
  with write_scp_trace[OF run] have
    w: "written io = map (\<lambda>(b, start, end). scp_line feat_dir b start end)
                        (concat (map (claimed_entry lengths) segs))"
    and p: "printed io = concat (map (claimed_warning lengths) segs)"
    by simp_all
  have "\<forall>(b, start, end) \<in> set (concat (map (claimed_entry lengths) segs)).
             \<exists>n. lengths b = Some n \<and> end \<le> n"
    using claimed_entry_bound by fastforce
  with run w p show ?thesis by blast
qed

lemma frame_quarter: "frame (Floating (Finite (1 / 4))) = Inr 25"
  by (simp add: frame_def float_eval)

lemma frame_two: "frame (Floating (Finite 2)) = Inr 200"
  by (simp add: frame_def float_eval)

lemma frame_three: "frame (Floating (Finite 3)) = Inr 300"
  by (simp add: frame_def float_eval)

theorem scp_written_end_bounded_witness:
  "\<exists>io. write_scp ''/f'' [''a'' \<mapsto> 60]
           [(''a'', Floating (Finite (1 / 2)), Floating (Finite 1)),
            (''a'', Floating (Finite 2), Floating (Finite 3)),
            (''a'', Floating (Finite (1 / 4)), Floating (Finite (1 / 2)))]
           \<lparr>written = [], printed = []\<rparr> = Inr io
     \<and> written io = [''a_000050-000059.fbank=/f/a.fbank[50,59]'' @ [CHR 0x0A],
                     ''a_000025-000050.fbank=/f/a.fbank[25,50]'' @ [CHR 0x0A]]
     \<and> printed io = [''Warning: Problem with lengths (truncating): a'' @ [CHR 0x0A]]"
proof -
  have entries:
    "claimed_entry [''a'' \<mapsto> 60] (''a'', Floating (Finite (1 / 2)), Floating (Finite 1)) = [(''a'', 50, 59)]"
    "claimed_entry [''a'' \<mapsto> 60] (''a'', Floating (Finite 2), Floating (Finite 3)) = []"
    "claimed_entry [''a'' \<mapsto> 60] (''a'', Floating (Finite (1 / 4)), Floating (Finite (1 / 2))) = [(''a'', 25, 50)]"
    "claimed_warning [''a'' \<mapsto> 60] (''a'', Floating (Finite (1 / 2)), Floating (Finite 1)) = []"
    "claimed_warning [''a'' \<mapsto> 60] (''a'', Floating (Finite 2), Floating (Finite 3))
       = [truncation_warning ''a'']"
    "claimed_warning [''a'' \<mapsto> 60] (''a'', Floating (Finite (1 / 4)), Floating (Finite (1 / 2))) = []"
    by (simp_all add: claimed_entry_def claimed_warning_def frame_half frame_one frame_two
        frame_three frame_quarter)
  show ?thesis
    using scp_written_end_bounded[of
        "[(''a'', Floating (Finite (1 / 2)), Floating (Finite 1)),
          (''a'', Floating (Finite 2), Floating (Finite 3)),
          (''a'', Floating (Finite (1 / 4)), Floating (Finite (1 / 2)))]"
        "[''a'' \<mapsto> 60]" "''/f''"]
    by (simp add: entries frame_half frame_one frame_two frame_three frame_quarter
        scp_line_def fmt_06d_def zfill_def str_int_def truncation_warning_def
        digit_char_def path_join_def str_nat_lt10 str_nat_ge10 replicate_numeral_unfold)
qed

section \<open>Properties of the segment list\<close>

lemma maximal_runs_heads:
  "maximal_runs ts = r # rs \<Longrightarrow> r \<noteq> [] \<and> ts \<noteq> [] \<and> hd r = hd ts"
  by (cases ts) (auto split: list.splits if_splits)

lemma maximal_runs_Nil_iff: "maximal_runs ts = [] \<longleftrightarrow> ts = []"
  by (cases ts) (auto split: list.splits)

lemma maximal_runs_Cons2:
  "maximal_runs (a # b # ts) =
     (case maximal_runs (b # ts) of
        r # rs \<Rightarrow> if linked a b then (a # r) # rs else [a] # r # rs
      | [] \<Rightarrow> [[a]])"
proof (cases "maximal_runs (b # ts)")
  case Nil
  then show ?thesis using maximal_runs_Nil_iff[of "b # ts"] by simp
next
  case (Cons r rs)
  from maximal_runs_heads[OF Cons] have "hd r = b" by simp
  with Cons show ?thesis by (simp del: maximal_runs.simps(2) add: maximal_runs.simps(2)[of a])
qed

lemma concat_maximal_runs: "concat (maximal_runs ts) = ts"
  by (induction ts) (auto split: list.splits)

lemma maximal_runs_nonempty: "r \<in> set (maximal_runs ts) \<Longrightarrow> r \<noteq> []"
  by (induction ts arbitrary: r) (auto split: list.splits if_splits)

lemma chain_Cons: "chain (a # r) \<longleftrightarrow> (r = [] \<or> (linked a (hd r) \<and> chain r))"
  by (cases r) auto

lemma maximal_runs_chain: "r \<in> set (maximal_runs ts) \<Longrightarrow> chain r"
proof (induction ts arbitrary: r)
  case Nil
  then show ?case by simp
next
  case (Cons a ts)
  show ?case
  proof (cases "maximal_runs ts")
    case Nil
    with Cons.prems show ?thesis by simp
  next
    case (Cons r0 rs)
    with Cons.IH have "chain r0" "\<And>x. x \<in> set rs \<Longrightarrow> chain x" by simp_all
    with Cons Cons.prems show ?thesis
      by (auto simp: chain_Cons split: if_splits)
  qed
qed

lemma separated_maximal_runs: "separated (maximal_runs ts)"
proof (induction ts)
  case Nil
  then show ?case by simp
next
  case (Cons a ts)
  show ?case
  proof (cases "maximal_runs ts")
    case Nil
    then show ?thesis by simp
  next
    case outer: (Cons r0 rs)
    from maximal_runs_heads[OF outer] have ne: "r0 \<noteq> []" by simp
    show ?thesis
    proof (cases rs)
      case Nil
      with outer ne show ?thesis by simp
    next
      case (Cons r1 rs')
      with outer Cons.IH ne show ?thesis by simp
    qed
  qed
qed


lemma read_lines_tokens:
  "map (parse_line pyfloat) lines = map Inr toks \<Longrightarrow>
     read_lines pyfloat lines st = Inr (process_tokens toks st)"
proof (induction lines arbitrary: toks st)
  case Nil
  then show ?case by simp
next
  case (Cons line lines)
  then obtain tok toks' where "toks = tok # toks'" "parse_line pyfloat line = Inr tok"
    "map (parse_line pyfloat) lines = map Inr toks'"
    by (cases toks) auto
  with Cons.IH show ?case by simp
qed

lemma process_token_skip: "\<not> retained tok \<Longrightarrow> process_token tok st = st"
  by (auto simp: retained_def process_token_def)

lemma process_tokens_filter: "process_tokens toks st = process_tokens (filter retained toks) st"
  by (induction toks arbitrary: st) (simp_all add: process_token_skip)

lemma run_segment_Cons:
  "run_segment (a # r)
     = (tok_utterance a, Floating (tok_start a),
        Floating (if r = [] then tok_end a else tok_end (last r)))"
  by (simp add: run_segment_def)

lemma maximal_runs_merge:
  assumes "linked c t" and "tok_utterance c' = tok_utterance t" and "tok_start c' = tok_start c"
    and "tok_end c' = tok_end t"
  shows "map run_segment (maximal_runs (c # t # ts)) = map run_segment (maximal_runs (c' # ts))"
proof -
  have u: "tok_utterance c' = tok_utterance c" using assms by (simp add: linked_def)
  have l: "\<And>x. linked c' x = linked t x" using assms by (simp add: linked_def)
  show ?thesis
  proof (cases "maximal_runs ts")
    case Nil
    with assms u show ?thesis by (simp add: run_segment_Cons)
  next
    case (Cons r rs)
    from maximal_runs_heads[OF Cons] have "r \<noteq> []" by simp
    with Cons assms u l show ?thesis by (simp add: run_segment_Cons)
  qed
qed

text \<open>
  The words of \<open>str.split\<close> are not empty, so the utterance of a parsed token is not the
  empty string \<open>prev_utterance\<close> starts with.
\<close>

lemma split_from_nonempty: "w \<in> set (split_from word s) \<Longrightarrow> w \<noteq> []"
  by (induction s arbitrary: word) (auto split: if_splits)

lemma parse_line_utterance:
  assumes "parse_line pyfloat line = Inr tok"
  shows "tok_utterance tok \<noteq> []"
proof -
  from assms obtain u s e l where sp: "py_split (py_strip line) = [u, s, e, l]"
    and tok: "tok_utterance tok = replace_underscores u"
    by (auto simp: parse_line_def split: list.splits option.splits)
  have "u \<in> set (split_from [] (py_strip line))"
    using sp by (simp add: py_split_def)
  from split_from_nonempty[OF this] show ?thesis
    by (simp add: tok replace_underscores_def)
qed

text \<open>
  The invariant of the loop: \<open>c\<close> stands for the run in progress, from its first token's
  start to the end of the last token read.
\<close>

lemma process_tokens_runs:
  assumes "\<forall>t \<in> set ts. retained t"
    and "\<forall>seg \<in> set (butlast (map run_segment (maximal_runs (c # ts)))).
           \<not> py_eq (snd (snd seg)) (Integer (- 1))"
    and "prev_utterance st = tok_utterance c" and "start_time st = Floating (tok_start c)"
    and "prev_end_time st = Floating (tok_end c)"
  shows "finish (process_tokens ts st) = segments st @ map run_segment (maximal_runs (c # ts))"
  using assms
proof (induction ts arbitrary: st c)
  case Nil
  then show ?case by (simp add: finish_def run_segment_def)
next
  case (Cons t ts)
  have rt: "retained t" using Cons.prems(1) by simp
  have lbl: "tok_label t \<noteq> ''SIL''" "tok_label t \<noteq> ''SPN''" using rt by (simp_all add: retained_def)
  have rest: "\<forall>t \<in> set ts. retained t" using Cons.prems(1) by simp
  show ?case
  proof (cases "linked c t")
    case True
    define st' where "st' = process_token t st"
    define c' where "c' = t\<lparr>tok_start := tok_start c\<rparr>"
    from True Cons.prems(3,4,5) lbl have st': "st' = st\<lparr>prev_end_time := Floating (tok_end t),
        prev_token_label := tok_label t, prev_utterance := tok_utterance t\<rparr>"
      by (simp add: st'_def process_token_def linked_def py_eq_def Let_def)
    have merge: "map run_segment (maximal_runs (c # t # ts)) = map run_segment (maximal_runs (c' # ts))"
      by (rule maximal_runs_merge[OF True]) (simp_all add: c'_def)
    have "finish (process_tokens ts st') = segments st' @ map run_segment (maximal_runs (c' # ts))"
    proof (rule Cons.IH[OF rest])
      show "\<forall>seg \<in> set (butlast (map run_segment (maximal_runs (c' # ts)))).
              \<not> py_eq (snd (snd seg)) (Integer (- 1))"
        using Cons.prems(2) unfolding merge .
    qed (use Cons.prems(4) in \<open>simp_all add: st' c'_def\<close>)
    with merge show ?thesis by (simp add: st'_def[symmetric] st')
  next
    case False
    define st' where "st' = process_token t st"
    have runs: "maximal_runs (c # t # ts) = [c] # maximal_runs (t # ts)"
      using False maximal_runs_Nil_iff[of "t # ts"]
      by (simp add: maximal_runs_Cons2 del: maximal_runs.simps split: list.splits)
    have ne: "map run_segment (maximal_runs (t # ts)) \<noteq> []"
      using maximal_runs_Nil_iff[of "t # ts"] by simp
    from Cons.prems(2) have bl: "\<forall>seg \<in> set (run_segment [c] # butlast (map run_segment (maximal_runs (t # ts)))).
           \<not> py_eq (snd (snd seg)) (Integer (- 1))"
      unfolding runs using ne by (simp del: maximal_runs.simps)
    then have ce: "\<not> py_eq (Floating (tok_end c)) (Integer (- 1))"
      by (simp add: run_segment_def)
    from False Cons.prems(3,4,5) lbl ce have st': "st' = st\<lparr>segments := segments st @ [(prev_utterance st, start_time st, prev_end_time st)],
        start_time := Floating (tok_start t), prev_end_time := Floating (tok_end t),
        prev_token_label := tok_label t, prev_utterance := tok_utterance t\<rparr>"
      by (auto simp: st'_def process_token_def linked_def py_eq_def Let_def)
    have "finish (process_tokens ts st') = segments st' @ map run_segment (maximal_runs (t # ts))"
    proof (rule Cons.IH[OF rest])
      show "\<forall>seg \<in> set (butlast (map run_segment (maximal_runs (t # ts)))).
              \<not> py_eq (snd (snd seg)) (Integer (- 1))"
        using bl by simp
    qed (simp_all add: st')
    then show ?thesis
      using Cons.prems(3,4,5) runs
      by (simp add: st'_def[symmetric] st' run_segment_def del: maximal_runs.simps)
  qed
qed

lemma process_tokens_initial:
  assumes "ts \<noteq> []" and "\<forall>t \<in> set ts. retained t \<and> tok_utterance t \<noteq> []"
    and "\<forall>seg \<in> set (butlast (map run_segment (maximal_runs ts))).
           \<not> py_eq (snd (snd seg)) (Integer (- 1))"
  shows "finish (process_tokens ts initial_state) = map run_segment (maximal_runs ts)"
proof -
  from assms(1) obtain t ts' where ts: "ts = t # ts'" by (cases ts) auto
  have rt: "retained t" and ut: "tok_utterance t \<noteq> []" using assms(2) ts by simp_all
  have lbl: "tok_label t \<noteq> ''SIL''" "tok_label t \<noteq> ''SPN''" using rt by (simp_all add: retained_def)
  define st' where "st' = process_token t initial_state"
  have st': "st' = \<lparr>segments = [], prev_utterance = tok_utterance t, prev_token_label = tok_label t,
      prev_end_time = Floating (tok_end t), start_time = Floating (tok_start t)\<rparr>"
    using lbl ut by (auto simp: st'_def process_token_def initial_state_def py_eq_def Let_def)
  have "finish (process_tokens ts' st') = segments st' @ map run_segment (maximal_runs (t # ts'))"
    by (rule process_tokens_runs) (use assms(2,3) ts in \<open>simp_all add: st'\<close>)
  then show ?thesis by (simp add: ts st'_def[symmetric] st')
qed

lemma parsed_utterances:
  "map (parse_line pyfloat) lines = map Inr toks \<Longrightarrow> \<forall>t \<in> set toks. tok_utterance t \<noteq> []"
proof (induction lines arbitrary: toks)
  case Nil
  then show ?case by simp
next
  case (Cons line lines)
  then obtain tok toks' where "toks = tok # toks'" "parse_line pyfloat line = Inr tok"
    "map (parse_line pyfloat) lines = map Inr toks'"
    by (cases toks) auto
  with Cons.IH parse_line_utterance show ?case by auto
qed

text \<open>
  Claim C6. For every forced-alignment file whose lines parse, with at least one retained
  token and in which no run but the last ends at the time \<open>-1\<close> (as in every alignment
  with non-negative times), the segment list has exactly one entry per maximal run of
  consecutive retained tokens that share the utterance (underscores replaced by hyphens)
  and each start where the previous one ends; the entry is
  \<open>(utterance, start of the run's first token, end of the run's last token)\<close>. The runs
  are maximal: they are not empty, they partition the retained tokens in order, and no
  run continues the run before it.
\<close>

theorem segments_are_maximal_runs:
  assumes "map (parse_line pyfloat) lines = map Inr toks"
    and "filter retained toks \<noteq> []"
    and "\<forall>r \<in> set (butlast (maximal_runs (filter retained toks))).
           \<not> float_eq_int (tok_end (last r)) (- 1)"
  shows "get_segments pyfloat lines = Inr (map run_segment (maximal_runs (filter retained toks)))
       \<and> concat (maximal_runs (filter retained toks)) = filter retained toks
       \<and> (\<forall>r \<in> set (maximal_runs (filter retained toks)). r \<noteq> [] \<and> chain r)
       \<and> separated (maximal_runs (filter retained toks))"
proof -
  have u: "\<forall>t \<in> set (filter retained toks). retained t \<and> tok_utterance t \<noteq> []"
    using parsed_utterances[OF assms(1)] by simp
  have "\<forall>seg \<in> set (map run_segment (butlast (maximal_runs (filter retained toks)))).
           \<not> py_eq (snd (snd seg)) (Integer (- 1))"
    using assms(3) by (auto simp: run_segment_def py_eq_def)
  then have s: "\<forall>seg \<in> set (butlast (map run_segment (maximal_runs (filter retained toks)))).
           \<not> py_eq (snd (snd seg)) (Integer (- 1))"
    by (simp only: map_butlast)
  have "finish (process_tokens (filter retained toks) initial_state)
          = map run_segment (maximal_runs (filter retained toks))"
    by (rule process_tokens_initial[OF assms(2) u s])
  then have "get_segments pyfloat lines = Inr (map run_segment (maximal_runs (filter retained toks)))"
    using read_lines_tokens[OF assms(1), of initial_state] process_tokens_filter[of toks initial_state]
    by (simp add: get_segments_def finish_def)
  then show ?thesis
    using concat_maximal_runs maximal_runs_nonempty maximal_runs_chain separated_maximal_runs
    by blast
qed

lemmas parse_eval = parse_line_def py_split_def py_strip_def is_space_def replace_underscores_def
  read_decimal_def read_unsigned_def digit_val_def Let_def

lemma binary64_demo:
  "binary64 0 = Finite 0" "binary64 (1 / 2) = Finite (1 / 2)" "binary64 1 = Finite 1"
  "binary64 (3 / 2) = Finite (3 / 2)" "binary64 2 = Finite 2" "binary64 3 = Finite 3"
  by (simp_all add: float_eval)

lemma demo_parse:
  "map (parse_line read_decimal)
     [''s01_a 0.0 0.5 SIL'' @ [CHR 0x0A], ''s01_a 0.5 1 the'' @ [CHR 0x0A],
      ''s01_a 1 1.5 cat'' @ [CHR 0x0A], ''s01_a 2 3 sat'' @ [CHR 0x0A]]
   = map Inr
     [\<lparr>tok_utterance = ''s01-a'', tok_start = Finite 0, tok_end = Finite (1 / 2), tok_label = ''SIL''\<rparr>,
      \<lparr>tok_utterance = ''s01-a'', tok_start = Finite (1 / 2), tok_end = Finite 1, tok_label = ''the''\<rparr>,
      \<lparr>tok_utterance = ''s01-a'', tok_start = Finite 1, tok_end = Finite (3 / 2), tok_label = ''cat''\<rparr>,
      \<lparr>tok_utterance = ''s01-a'', tok_start = Finite 2, tok_end = Finite 3, tok_label = ''sat''\<rparr>]"
  by (simp add: parse_eval binary64_demo)

theorem segments_are_maximal_runs_witness:
  "get_segments read_decimal
     [''s01_a 0.0 0.5 SIL'' @ [CHR 0x0A], ''s01_a 0.5 1 the'' @ [CHR 0x0A],
      ''s01_a 1 1.5 cat'' @ [CHR 0x0A], ''s01_a 2 3 sat'' @ [CHR 0x0A]]
   = Inr [(''s01-a'', Floating (Finite (1 / 2)), Floating (Finite (3 / 2))),
          (''s01-a'', Floating (Finite 2), Floating (Finite 3))]"
  using segments_are_maximal_runs[OF demo_parse]
  by (simp add: retained_def linked_def run_segment_def float_eq_def float_eq_int_def
      is_nan_def is_inf_def float_val_def)

text \<open>
  Where a run that is not the last ends at the time \<open>-1\<close>, the value \<open>prev_end_time\<close>
  starts with, the script does not append it (line 81).
\<close>

lemma sentinel_parse:
  "map (parse_line read_decimal) [''u 0 -1 a'' @ [CHR 0x0A], ''v 5 6 b'' @ [CHR 0x0A]]
   = map Inr
     [\<lparr>tok_utterance = ''u'', tok_start = Finite 0, tok_end = Finite (- 1), tok_label = ''a''\<rparr>,
      \<lparr>tok_utterance = ''v'', tok_start = Finite 5, tok_end = Finite 6, tok_label = ''b''\<rparr>]"
  by (simp add: parse_eval float_eval)

lemma sentinel_run_dropped:
  "get_segments read_decimal [''u 0 -1 a'' @ [CHR 0x0A], ''v 5 6 b'' @ [CHR 0x0A]]
     = Inr [(''v'', Floating (Finite 5), Floating (Finite 6))]"
  using read_lines_tokens[OF sentinel_parse, of initial_state]
  by (simp add: get_segments_def process_token_def initial_state_def Let_def py_eq_def
      float_eq_def float_eq_int_def is_nan_def is_inf_def float_val_def)

section \<open>Properties of the link script\<close>

lemma stat_fuel_mono:
  "fs \<subseteq>\<^sub>m fs' \<Longrightarrow> stat_fuel n fs p = Some nd \<Longrightarrow> stat_fuel n fs' p = Some nd"
proof (induction n arbitrary: p)
  case 0
  then show ?case by simp
next
  case (Suc n)
  from Suc.prems(2) obtain x where x: "fs p = Some x" by (auto split: option.splits)
  with Suc.prems(1) have x': "fs' p = Some x" by (auto simp: map_le_def dom_def)
  show ?case
  proof (cases x)
    case (Symlink target)
    with x x' Suc show ?thesis by simp
  qed (use x x' Suc.prems in auto)
qed

lemma os_mkdir_result:
  "os_mkdir p fs = Inr fs' \<Longrightarrow> fs \<subseteq>\<^sub>m fs' \<and> fs' p = Some Directory"
  by (auto simp: os_mkdir_def map_le_def split: if_splits option.splits)

lemma os_symlink_result:
  "os_symlink src dst fs = Inr fs' \<Longrightarrow> fs' = fs(dst \<mapsto> Symlink src) \<and> fs dst = None"
  by (auto simp: os_symlink_def split: if_splits option.splits)

lemma makedirs_result:
  "makedirs name fs = Inr fs' \<Longrightarrow>
     fs \<subseteq>\<^sub>m fs' \<and> (snd (makedirs_split name) \<noteq> ''.'' \<longrightarrow> fs' name = Some Directory)"
proof (induction name fs arbitrary: fs' rule: makedirs.induct)
  case (1 name fs)
  obtain head tail where ht: "makedirs_split name = (head, tail)" by (cases "makedirs_split name")
  show ?case
  proof (cases "head \<noteq> [] \<and> tail \<noteq> [] \<and> \<not> path_exists fs head")
    case False
    with "1.prems" ht have "os_mkdir name fs = Inr fs'"
      by (subst (asm) makedirs.simps) auto
    then show ?thesis using os_mkdir_result by blast
  next
    case True
    show ?thesis
    proof (cases "makedirs head fs")
      case (Inl e)
      with "1.prems" ht True have r: "(if tail = ''.'' then Inr fs else os_mkdir name fs) = Inr fs'"
        by (subst (asm) makedirs.simps) (auto split: if_splits)
      then show ?thesis using os_mkdir_result[of name fs fs'] ht
        by (auto split: if_splits)
    next
      case (Inr fs1)
      with "1.prems" ht True have r: "(if tail = ''.'' then Inr fs1 else os_mkdir name fs1) = Inr fs'"
        by (subst (asm) makedirs.simps) (auto split: if_splits)
      from "1.IH"[OF ht[symmetric] True Inr] have le: "fs \<subseteq>\<^sub>m fs1" by simp
      from r show ?thesis using os_mkdir_result[of name fs1 fs'] ht le
        by (auto split: if_splits intro: map_le_trans)
    qed
  qed
qed


lemma stat_fuel_numeral:
  "stat_fuel (numeral k) fs p =
     (case fs p of
        None \<Rightarrow> None
      | Some (Symlink target) \<Rightarrow> stat_fuel (pred_numeral k) fs (path_join (dirname p) target)
      | Some nd \<Rightarrow> Some nd)"
  by (simp add: numeral_eq_Suc)

lemma directory_isdir: "fs p = Some Directory \<Longrightarrow> path_isdir fs p"
  by (simp add: path_isdir_def stat_def stat_fuel_numeral)

lemma path_isdir_mono: "fs \<subseteq>\<^sub>m fs' \<Longrightarrow> path_isdir fs p \<Longrightarrow> path_isdir fs' p"
  by (simp add: path_isdir_def stat_def stat_fuel_mono)

lemma path_isfile_mono: "fs \<subseteq>\<^sub>m fs' \<Longrightarrow> path_isfile fs p \<Longrightarrow> path_isfile fs' p"
  by (simp add: path_isfile_def stat_def stat_fuel_mono)

lemma makedirs_block:
  assumes "(if \<not> path_isdir (files w) d then
              (case makedirs d (files w) of
                 Inl e \<Rightarrow> Inl e
               | Inr fs \<Rightarrow> Inr (w\<lparr>files := fs\<rparr>))
            else Inr w) = Inr w'"
    and "snd (makedirs_split d) \<noteq> ''.''"
  shows "files w \<subseteq>\<^sub>m files w' \<and> path_isdir (files w') d"
proof (cases "path_isdir (files w) d")
  case True
  with assms show ?thesis by simp
next
  case False
  with assms(1) obtain fs where m: "makedirs d (files w) = Inr fs" and w': "w' = w\<lparr>files := fs\<rparr>"
    by (auto split: sum.splits)
  from makedirs_result[OF m] assms(2) show ?thesis
    by (simp add: w' directory_isdir)
qed

lemma symlink_block:
  assumes "(if \<not> path_isfile (files w) l then
              (case os_symlink t l (files w) of
                 Inl e \<Rightarrow> Inl e
               | Inr fs \<Rightarrow> Inr \<lparr>files = fs, stdout = stdout w @ [m]\<rparr>)
            else Inr w) = Inr w'"
    and "stat_fuel 40 (files w) (path_join (dirname l) t) = Some RegularFile"
  shows "files w \<subseteq>\<^sub>m files w' \<and> path_isfile (files w') l"
proof (cases "path_isfile (files w) l")
  case True
  with assms show ?thesis by simp
next
  case False
  with assms(1) obtain fs where s: "os_symlink t l (files w) = Inr fs"
    and w': "w' = \<lparr>files = fs, stdout = stdout w @ [m]\<rparr>"
    by (auto split: sum.splits)
  from os_symlink_result[OF s] have fs: "fs = (files w)(l \<mapsto> Symlink t)" and none: "files w l = None"
    by simp_all
  from none have le: "files w \<subseteq>\<^sub>m fs"
    by (auto simp: fs map_le_def)
  from stat_fuel_mono[OF le assms(2)] have "path_isfile fs l"
    by (simp add: path_isfile_def stat_def stat_fuel_numeral fs)
  with le show ?thesis by (simp add: w')
qed

lemma output_dir_tail: "snd (makedirs_split output_dir) \<noteq> ''.''"
  by (simp add: output_dir_def path_join_def makedirs_split_def path_split_def rstrip_slash_def Let_def)

text \<open>
  Claim C10. If a first run of \<open>main\<close> succeeds and the two linked-to feature files exist
  (the path each link points to leads to a regular file), then a second run right after it
  succeeds, prints nothing, creates no link and leaves the file system as it is: both
  output paths are existing files by then, so neither \<open>os.symlink\<close> is reached.
\<close>

theorem link_main_idempotent:
  assumes first: "link_main w0 = Inr w1"
    and train: "stat_fuel 40 (files w0) (path_join (dirname train_link_fn) train_npz_fn) = Some RegularFile"
    and test: "stat_fuel 40 (files w0) (path_join (dirname test_link_fn) test_npz_fn) = Some RegularFile"
  shows "link_main w1 = Inr w1"
proof -
  from first obtain wa wb where
    a: "(if \<not> path_isdir (files w0) output_dir then
           (case makedirs output_dir (files w0) of
              Inl e \<Rightarrow> Inl e
            | Inr fs \<Rightarrow> Inr (w0\<lparr>files := fs\<rparr>))
         else Inr w0) = Inr wa"
    and b: "(if \<not> path_isfile (files wa) train_link_fn then
              (case os_symlink train_npz_fn train_link_fn (files wa) of
                 Inl e \<Rightarrow> Inl e
               | Inr fs \<Rightarrow>
                   Inr \<lparr>files = fs,
                        stdout = stdout wa @ [linking_message train_npz_fn train_link_fn]\<rparr>)
            else Inr wa) = Inr wb"
    and c: "(if \<not> path_isfile (files wb) test_link_fn then
              (case os_symlink test_npz_fn test_link_fn (files wb) of
                 Inl e \<Rightarrow> Inl e
               | Inr fs \<Rightarrow>
                   Inr \<lparr>files = fs,
                        stdout = stdout wb @ [linking_message test_npz_fn test_link_fn]\<rparr>)
            else Inr wb) = Inr w1"
    unfolding link_main_def by (simp split: sum.splits)
  from makedirs_block[OF a output_dir_tail]
  have a_le: "files w0 \<subseteq>\<^sub>m files wa" and a_dir: "path_isdir (files wa) output_dir"
    by simp_all
  from symlink_block[OF b stat_fuel_mono[OF a_le train]]
  have b_le: "files wa \<subseteq>\<^sub>m files wb" and b_file: "path_isfile (files wb) train_link_fn"
    by simp_all
  from symlink_block[OF c stat_fuel_mono[OF map_le_trans[OF a_le b_le] test]]
  have c_le: "files wb \<subseteq>\<^sub>m files w1" and c_file: "path_isfile (files w1) test_link_fn"
    by simp_all
  have "path_isdir (files w1) output_dir"
    using a_dir b_le c_le by (blast intro: path_isdir_mono)
  moreover have "path_isfile (files w1) train_link_fn"
    using b_file c_le by (rule path_isfile_mono[rotated])
  ultimately show ?thesis
    using c_file by (simp add: link_main_def)
qed


lemma path_names:
  "output_dir = ''data/xitsonga.mfcc''"
  "train_link_fn = ''data/xitsonga.mfcc/train.utd.npz''"
  "test_link_fn = ''data/xitsonga.mfcc/test.npz''"
  "train_npz_fn = ''../../../features/wordpairs/xitsonga/xitsonga_utd_terms.mfcc.cmvn_dd.npz''"
  "test_npz_fn = ''../../../features/wordpairs/xitsonga/xitsonga.samediff.mfcc.cmvn_dd.npz''"
  by (simp_all add: output_dir_def train_link_fn_def test_link_fn_def train_npz_fn_def
      test_npz_fn_def relative_features_dir_def path_join_def)

lemma dirname_links:
  "dirname ''data/xitsonga.mfcc/train.utd.npz'' = ''data/xitsonga.mfcc''"
  "dirname ''data/xitsonga.mfcc/test.npz'' = ''data/xitsonga.mfcc''"
  "dirname ''data/xitsonga.mfcc'' = ''data''"
  "dirname ''data'' = []"
  by (simp_all add: dirname_def path_split_def rstrip_slash_def Let_def)

lemma makedirs_data:
  "fs ''data'' = None \<Longrightarrow> makedirs ''data'' fs = Inr (fs(''data'' \<mapsto> Directory))"
  by (subst makedirs.simps)
    (simp add: makedirs_split_def path_split_def rstrip_slash_def Let_def os_mkdir_def
      parent_error_def dirname_links)

lemma makedirs_output_dir:
  "fs ''data'' = None \<Longrightarrow> fs ''data/xitsonga.mfcc'' = None \<Longrightarrow>
     makedirs ''data/xitsonga.mfcc'' fs
       = Inr (fs(''data'' \<mapsto> Directory, ''data/xitsonga.mfcc'' \<mapsto> Directory))"
  by (subst makedirs.simps)
    (simp add: makedirs_split_def path_split_def rstrip_slash_def Let_def os_mkdir_def
      parent_error_def dirname_links makedirs_data path_exists_def stat_def stat_fuel_numeral)

lemma features_present_eq:
  "features_present =
     [''data/xitsonga.mfcc/../../../features/wordpairs/xitsonga/xitsonga_utd_terms.mfcc.cmvn_dd.npz'' \<mapsto> RegularFile,
      ''data/xitsonga.mfcc/../../../features/wordpairs/xitsonga/xitsonga.samediff.mfcc.cmvn_dd.npz'' \<mapsto> RegularFile]"
  by (simp add: features_present_def path_names dirname_links path_join_def)

lemma first_run:
  "link_main \<lparr>files = features_present, stdout = []\<rparr>
   = Inr \<lparr>files = features_present(''data'' \<mapsto> Directory, output_dir \<mapsto> Directory,
                   train_link_fn \<mapsto> Symlink train_npz_fn, test_link_fn \<mapsto> Symlink test_npz_fn),
           stdout = [linking_message train_npz_fn train_link_fn,
                     linking_message test_npz_fn test_link_fn]\<rparr>"
  by (simp add: link_main_def features_present_eq path_names makedirs_output_dir path_isdir_def
      path_isfile_def stat_def stat_fuel_numeral os_symlink_def parent_error_def dirname_links)

theorem link_main_idempotent_witness:
  "link_main \<lparr>files = features_present(''data'' \<mapsto> Directory, output_dir \<mapsto> Directory,
                   train_link_fn \<mapsto> Symlink train_npz_fn, test_link_fn \<mapsto> Symlink test_npz_fn),
           stdout = [linking_message train_npz_fn train_link_fn,
                     linking_message test_npz_fn test_link_fn]\<rparr>
   = Inr \<lparr>files = features_present(''data'' \<mapsto> Directory, output_dir \<mapsto> Directory,
                   train_link_fn \<mapsto> Symlink train_npz_fn, test_link_fn \<mapsto> Symlink test_npz_fn),
           stdout = [linking_message train_npz_fn train_link_fn,
                     linking_message test_npz_fn test_link_fn]\<rparr>"
proof (rule link_main_idempotent[OF first_run])
  show "stat_fuel 40 (files \<lparr>files = features_present, stdout = []\<rparr>)
          (path_join (dirname train_link_fn) train_npz_fn) = Some RegularFile"
    by (simp add: features_present_def stat_fuel_numeral)
  show "stat_fuel 40 (files \<lparr>files = features_present, stdout = []\<rparr>)
          (path_join (dirname test_link_fn) test_npz_fn) = Some RegularFile"
    by (simp add: features_present_def stat_fuel_numeral)
qed

section \<open>Properties of the vector-quantisation reference\<close>

lemma argmin_less_irrefl: "\<not> argmin_less a a"
  by (cases a) (auto simp: argmin_less_def float_lt_def is_nan_def)

lemma argmin_less_trans: "argmin_less a b \<Longrightarrow> argmin_less b c \<Longrightarrow> argmin_less a c"
  by (cases a; cases b; cases c) (auto simp: argmin_less_def float_lt_def is_nan_def float_val_def)

lemma argmin_less_between: "argmin_less a b \<Longrightarrow> argmin_less a c \<or> argmin_less c b"
  by (cases a; cases b; cases c) (auto simp: argmin_less_def float_lt_def is_nan_def float_val_def)

lemma argmin_test: "\<not> is_nan mp \<Longrightarrow> (\<not> float_ge d mp) = argmin_less d mp"
  by (cases d; cases mp)
    (auto simp: argmin_less_def float_ge_def float_lt_def float_eq_def is_nan_def is_inf_def
      float_val_def)

lemma argmin_less_nan: "is_nan b \<Longrightarrow> \<not> argmin_less a b" "is_nan a \<Longrightarrow> \<not> is_nan b \<Longrightarrow> argmin_less a b"
  by (simp_all add: argmin_less_def)

lemma argmin_from_spec:
  assumes "min_ind < i" and "\<not> is_nan mp"
  shows "let k = argmin_from min_ind mp i ds; v = (if k = min_ind then mp else ds ! (k - i)) in
           (k = min_ind \<or> (i \<le> k \<and> k < i + length ds))
         \<and> \<not> argmin_less mp v \<and> (\<forall>j < length ds. \<not> argmin_less (ds ! j) v)
         \<and> (k \<noteq> min_ind \<longrightarrow> argmin_less v mp \<and> (\<forall>j. j < k - i \<longrightarrow> argmin_less v (ds ! j)))"
  using assms
proof (induction ds arbitrary: min_ind mp i)
  case Nil
  then show ?case by (simp add: argmin_less_irrefl)
next
  case (Cons d ds)
  show ?case
  proof (cases "argmin_less d mp")
    case True
    then have test: "\<not> float_ge d mp" using argmin_test[OF Cons.prems(2)] by simp
    show ?thesis
    proof (cases "is_nan d")
      case nan: True
      have k: "argmin_from min_ind mp i (d # ds) = i" using test nan by simp
      have "i \<noteq> min_ind" using Cons.prems(1) by simp
      moreover have "\<not> argmin_less mp d" "\<forall>j < length (d # ds). \<not> argmin_less ((d # ds) ! j) d"
        using nan by (simp_all add: argmin_less_nan)
      ultimately show ?thesis using True unfolding Let_def k by simp
    next
      case False
      have lt: "i < Suc i" by simp
      define k where "k = argmin_from i d (Suc i) ds"
      define v where "v = (if k = i then d else ds ! (k - Suc i))"
      note ih0 = Cons.IH[OF lt False, unfolded Let_def, folded k_def, folded v_def]
      have ih:
        "k = i \<or> (Suc i \<le> k \<and> k < Suc i + length ds)" "\<not> argmin_less d v"
        "\<forall>j < length ds. \<not> argmin_less (ds ! j) v"
        "k \<noteq> i \<longrightarrow> argmin_less v d \<and> (\<forall>j. j < k - Suc i \<longrightarrow> argmin_less v (ds ! j))"
        using ih0 by blast+
      have kk: "argmin_from min_ind mp i (d # ds) = k" using test False by (simp add: k_def)
      have kne: "k \<noteq> min_ind" using ih(1) Cons.prems(1) by auto
      have vv: "(d # ds) ! (k - i) = v"
        using ih(1) by (auto simp: v_def Suc_diff_le)
      have vmp: "argmin_less v mp"
      proof (cases "k = i")
        case True
        then show ?thesis using \<open>argmin_less d mp\<close> by (simp add: v_def)
      next
        case False
        with ih(4) have "argmin_less v d" by simp
        then show ?thesis using \<open>argmin_less d mp\<close> by (rule argmin_less_trans)
      qed
      have a0: "\<not> argmin_less mp v"
        using vmp argmin_less_trans argmin_less_irrefl by blast
      have a: "\<forall>j < length (d # ds). \<not> argmin_less ((d # ds) ! j) v"
        using ih(2,3) by (auto simp: nth_Cons split: nat.splits)
      have b: "\<forall>j. j < k - i \<longrightarrow> argmin_less v ((d # ds) ! j)"
      proof (intro allI impI)
        fix j assume j: "j < k - i"
        then have "k \<noteq> i" by auto
        with ih(4) have s: "argmin_less v d" "\<forall>j. j < k - Suc i \<longrightarrow> argmin_less v (ds ! j)" by simp_all
        show "argmin_less v ((d # ds) ! j)"
        proof (cases j)
          case 0
          with s show ?thesis by simp
        next
          case (Suc j')
          with j have "j' < k - Suc i" by auto
          with s Suc show ?thesis by simp
        qed
      qed
      from ih(1) kne vv a0 a b vmp show ?thesis
        unfolding Let_def kk by auto
    qed
  next
    case False
    then have test: "float_ge d mp" using argmin_test[OF Cons.prems(2), of d] by blast
    have lt: "min_ind < Suc i" using Cons.prems by simp
    define k where "k = argmin_from min_ind mp (Suc i) ds"
    define v where "v = (if k = min_ind then mp else ds ! (k - Suc i))"
    note ih0 = Cons.IH[OF lt Cons.prems(2), unfolded Let_def, folded k_def, folded v_def]
    have ih:
      "k = min_ind \<or> (Suc i \<le> k \<and> k < Suc i + length ds)" "\<not> argmin_less mp v"
      "\<forall>j < length ds. \<not> argmin_less (ds ! j) v"
      "k \<noteq> min_ind \<longrightarrow> argmin_less v mp \<and> (\<forall>j. j < k - Suc i \<longrightarrow> argmin_less v (ds ! j))"
      using ih0 by blast+
    have kk: "argmin_from min_ind mp i (d # ds) = k" using test by (simp add: k_def)
    have vv: "(if k = min_ind then mp else (d # ds) ! (k - i)) = v"
      using ih(1) Cons.prems by (auto simp: v_def Suc_diff_le)
    have dv: "\<not> argmin_less d v"
      using False ih(2) argmin_less_between by blast
    have a: "\<forall>j < length (d # ds). \<not> argmin_less ((d # ds) ! j) v"
      using ih(3) dv by (auto simp: nth_Cons split: nat.splits)
    have b: "k \<noteq> min_ind \<longrightarrow> (\<forall>j. j < k - i \<longrightarrow> argmin_less v ((d # ds) ! j))"
    proof (intro allI impI)
      fix j assume k: "k \<noteq> min_ind" and j: "j < k - i"
      with ih(4) have s: "argmin_less v mp" "\<forall>j. j < k - Suc i \<longrightarrow> argmin_less v (ds ! j)" by simp_all
      from s(1) False have vd: "argmin_less v d" using argmin_less_between by blast
      show "argmin_less v ((d # ds) ! j)"
      proof (cases j)
        case 0
        with vd show ?thesis by simp
      next
        case (Suc j')
        with j have "j' < k - Suc i" by auto
        with s Suc show ?thesis by simp
      qed
    qed
    from ih(1,2,4) vv a b show ?thesis
      unfolding Let_def kk by auto
  qed
qed

lemma np_argmin_spec:
  assumes "ds \<noteq> []"
  shows "\<exists>k. np_argmin ds = Inr k \<and> k < length ds
           \<and> (\<forall>j < length ds. \<not> argmin_less (ds ! j) (ds ! k))
           \<and> (\<forall>j < k. argmin_less (ds ! k) (ds ! j))"
proof -
  from assms obtain d ds' where ds: "ds = d # ds'" by (cases ds) auto
  show ?thesis
  proof (cases "is_nan d")
    case True
    then have "np_argmin ds = Inr 0" by (simp add: np_argmin_def ds)
    moreover have "\<forall>j < length ds. \<not> argmin_less (ds ! j) (ds ! 0)"
      using True by (simp add: ds argmin_less_nan)
    ultimately show ?thesis by (simp add: ds)
  next
    case False
    define k where "k = argmin_from 0 d 1 ds'"
    define v where "v = (if k = 0 then d else ds' ! (k - 1))"
    have "(0::nat) < 1" by simp
    note s0 = argmin_from_spec[OF this False, of ds', unfolded Let_def, folded k_def, folded v_def]
    have s:
      "k = 0 \<or> (1 \<le> k \<and> k < 1 + length ds')" "\<not> argmin_less d v"
      "\<forall>j < length ds'. \<not> argmin_less (ds' ! j) v"
      "k \<noteq> 0 \<longrightarrow> argmin_less v d \<and> (\<forall>j. j < k - 1 \<longrightarrow> argmin_less v (ds' ! j))"
      using s0 by blast+
    have v: "ds ! k = v" by (auto simp: ds v_def nth_Cons split: nat.splits)
    have "k < length ds" using s(1) by (auto simp: ds)
    moreover have "\<forall>j < length ds. \<not> argmin_less (ds ! j) (ds ! k)"
      unfolding v using s(2,3) by (auto simp: ds nth_Cons split: nat.splits)
    moreover have "\<forall>j < k. argmin_less (ds ! k) (ds ! j)"
    proof (intro allI impI)
      fix j assume j: "j < k"
      then have "k \<noteq> 0" by simp
      with s(4) have t: "argmin_less v d" "\<forall>j. j < k - 1 \<longrightarrow> argmin_less v (ds' ! j)" by simp_all
      show "argmin_less (ds ! k) (ds ! j)"
        unfolding v using t j by (cases j) (auto simp: ds)
    qed
    moreover have "np_argmin ds = Inr k"
      using False by (simp add: np_argmin_def ds k_def)
    ultimately show ?thesis by blast
  qed
qed

lemma vq_dists_step:
  "length x = length e \<Longrightarrow> vq_dists x embeds = Inr ds \<Longrightarrow>
     vq_dists x (e # embeds) = Inr (computed_distance x e # ds)"
  by (simp add: np_sub_def np_broadcast_def computed_distance_def)

lemma vq_dists_same_length:
  "\<forall>e \<in> set embeds. length e = length x \<Longrightarrow>
     vq_dists x embeds = Inr (map (computed_distance x) embeds)"
proof (induction embeds)
  case Nil
  then show ?case by simp
next
  case (Cons e embeds)
  then have "length x = length e" and "vq_dists x embeds = Inr (map (computed_distance x) embeds)"
    by simp_all
  then show ?case
    using vq_dists_step by simp
qed

text \<open>
  Claim C5, amended. With a codebook that is not empty and vectors of one length, the
  reference returns for every input vector the codebook entry at the first index whose
  computed distance to the input, \<open>np.linalg.norm(x_test - embed)\<close> in binary64, is the
  smallest: no entry has a smaller computed distance, and every entry before it has a
  greater one (a NaN distance counts as smaller than every number).
\<close>

theorem vq_nearest_first:
  assumes "tf_embeds \<noteq> []"
    and "\<forall>x \<in> set test_data. length x = D"
    and "\<forall>e \<in> set tf_embeds. length e = D"
  shows "\<exists>z. np_z_q test_data tf_embeds = Inr z \<and> length z = length test_data \<and>
     (\<forall>i < length test_data. \<exists>k < length tf_embeds. z ! i = tf_embeds ! k
        \<and> (\<forall>j < length tf_embeds.
              \<not> argmin_less (computed_distance (test_data ! i) (tf_embeds ! j))
                             (computed_distance (test_data ! i) (tf_embeds ! k)))
        \<and> (\<forall>j < k.
              argmin_less (computed_distance (test_data ! i) (tf_embeds ! k))
                          (computed_distance (test_data ! i) (tf_embeds ! j))))"
  using assms(2)
proof (induction test_data)
  case Nil
  then show ?case by simp
next
  case (Cons x xs)
  let ?near = "\<lambda>x z. \<exists>k < length tf_embeds. z = tf_embeds ! k
        \<and> (\<forall>j < length tf_embeds.
              \<not> argmin_less (computed_distance x (tf_embeds ! j)) (computed_distance x (tf_embeds ! k)))
        \<and> (\<forall>j < k. argmin_less (computed_distance x (tf_embeds ! k)) (computed_distance x (tf_embeds ! j)))"
  from Cons.prems have "\<forall>x \<in> set xs. length x = D" by simp
  from Cons.IH[OF this] obtain zs where zs: "np_z_q xs tf_embeds = Inr zs" "length zs = length xs"
    "\<forall>i < length xs. ?near (xs ! i) (zs ! i)"
    by blast
  from Cons.prems assms(3) have "\<forall>e \<in> set tf_embeds. length e = length x" by simp
  then have d: "vq_dists x tf_embeds = Inr (map (computed_distance x) tf_embeds)"
    by (rule vq_dists_same_length)
  from assms(1) have "map (computed_distance x) tf_embeds \<noteq> []" by simp
  from np_argmin_spec[OF this] obtain k where k:
    "np_argmin (map (computed_distance x) tf_embeds) = Inr k" "k < length tf_embeds"
    "\<forall>j < length tf_embeds.
       \<not> argmin_less (computed_distance x (tf_embeds ! j)) (computed_distance x (tf_embeds ! k))"
    "\<forall>j < k. argmin_less (computed_distance x (tf_embeds ! k)) (computed_distance x (tf_embeds ! j))"
    by auto
  have res: "np_z_q (x # xs) tf_embeds = Inr (tf_embeds ! k # zs)"
    using d k(1,2) zs(1) by (simp add: py_index_def)
  have near0: "?near x (tf_embeds ! k)"
    using k(2,3,4) by blast
  have "\<forall>i < length (x # xs). ?near ((x # xs) ! i) ((tf_embeds ! k # zs) ! i)"
  proof (intro allI impI)
    fix i assume "i < length (x # xs)"
    then show "?near ((x # xs) ! i) ((tf_embeds ! k # zs) ! i)"
      using near0 zs(3) by (cases i) simp_all
  qed
  with res zs(2) show ?case by simp
qed

lemma sqrt_squares: "sqrt 9 = 3" "sqrt 25 = 5"
  using real_sqrt_abs[of 3] real_sqrt_abs[of 5] by simp_all

lemmas vq_eval = np_sub_def np_broadcast_def np_linalg_norm_def np_dot_self_def
  computed_distance_def np_argmin_def py_index_def sqrt_squares

lemma vq_demo_dists:
  "vq_dists [Finite 0, Finite 0]
     [[Finite 3, Finite 4], [Finite 0, Finite 5], [Finite 0, Finite 1], [Finite 0, Finite (- 1)]]
   = Inr [Finite 5, Finite 5, Finite 1, Finite 1]"
  "vq_dists [Finite 0, Finite 4]
     [[Finite 3, Finite 4], [Finite 0, Finite 5], [Finite 0, Finite 1], [Finite 0, Finite (- 1)]]
   = Inr [Finite 3, Finite 1, Finite 3, Finite 5]"
  by (simp_all add: vq_eval float_eval)

lemma vq_demo:
  "np_z_q [[Finite 0, Finite 0], [Finite 0, Finite 4]]
     [[Finite 3, Finite 4], [Finite 0, Finite 5], [Finite 0, Finite 1], [Finite 0, Finite (- 1)]]
   = Inr [[Finite 0, Finite 1], [Finite 0, Finite 5]]"
  by (simp del: vq_dists.simps add: vq_demo_dists np_argmin_def py_index_def float_ge_def
      float_lt_def float_eq_def is_nan_def is_inf_def float_val_def)

theorem vq_nearest_first_witness:
  "np_z_q [[Finite 0, Finite 0], [Finite 0, Finite 4]]
     [[Finite 3, Finite 4], [Finite 0, Finite 5], [Finite 0, Finite 1], [Finite 0, Finite (- 1)]]
   = Inr [[Finite 0, Finite 1], [Finite 0, Finite 5]]
   \<and> (\<exists>z. np_z_q [[Finite 0, Finite 0], [Finite 0, Finite 4]]
     [[Finite 3, Finite 4], [Finite 0, Finite 5], [Finite 0, Finite 1], [Finite 0, Finite (- 1)]]
        = Inr z \<and> length z = 2)"
  using vq_nearest_first[of
      "[[Finite 3, Finite 4], [Finite 0, Finite 5], [Finite 0, Finite 1], [Finite 0, Finite (- 1)]]"
      "[[Finite 0, Finite 0], [Finite 0, Finite 4]]" 2] vq_demo
  by simp

text \<open>
  Claim C5 as stated fails where two different distances round to one float: the entry
  \<open>(1, 2^-30)\<close> is returned for the input \<open>(0, 0)\<close>, although the entry \<open>(1, 0)\<close> after it
  is nearer; both computed distances are \<open>1.0\<close>.
\<close>

lemma tie_dists:
  "vq_dists [Finite 0, Finite 0] [[Finite 1, Finite (1 / 2 ^ 30)], [Finite 1, Finite 0]]
   = Inr [Finite 1, Finite 1]"
  by (simp add: vq_eval float_eval)

theorem vq_rounded_distance_counterexample:
  "np_z_q [[Finite 0, Finite 0]] [[Finite 1, Finite (1 / 2 ^ 30)], [Finite 1, Finite 0]]
     = Inr [[Finite 1, Finite (1 / 2 ^ 30)]]
   \<and> euclidean_distance [Finite 0, Finite 0] [Finite 1, Finite 0]
       < euclidean_distance [Finite 0, Finite 0] [Finite 1, Finite (1 / 2 ^ 30)]"
proof -
  have "np_z_q [[Finite 0, Finite 0]] [[Finite 1, Finite (1 / 2 ^ 30)], [Finite 1, Finite 0]]
     = Inr [[Finite 1, Finite (1 / 2 ^ 30)]]"
    by (simp only: np_z_q.simps tie_dists)
      (simp add: np_argmin_def py_index_def float_ge_def float_lt_def float_eq_def
        is_nan_def is_inf_def float_val_def)
  moreover have "euclidean_distance [Finite 0, Finite 0] [Finite 1, Finite 0]
       < euclidean_distance [Finite 0, Finite 0] [Finite 1, Finite (1 / 2 ^ 30)]"
    by (simp add: euclidean_distance_def float_val_def)
  ultimately show ?thesis by simp
qed

section \<open>Properties of the encoder-decoder reference\<close>

lemma np_rnn_resolved:
  "resolve_maxlength maxlength x_lengths = Inr m \<Longrightarrow>
     np_rnn x x_lengths W b (Some m) = np_rnn x x_lengths W b maxlength"
  by (simp add: np_rnn_def resolve_maxlength_def)

lemma py_index_nat:
  "py_index xs i = Inr v \<Longrightarrow> 0 \<le> i \<Longrightarrow> v = xs ! nat i \<and> nat i < length xs"
  by (auto simp: py_index_def Let_def split: if_splits)

lemma encoder_states_loop_result:
  "encoder_states_loop enc i ls = Inr states \<Longrightarrow> \<forall>l \<in> set ls. 1 \<le> l \<Longrightarrow>
     length states = length ls
     \<and> (\<forall>j < length ls. states ! j = enc ! (i + j) ! nat (ls ! j - 1))"
proof (induction ls arbitrary: i states)
  case Nil
  then show ?case by simp
next
  case (Cons l ls)
  from Cons.prems(1) obtain item s rest where
    item: "py_index enc (int i) = Inr item" and s: "py_index item (l - 1) = Inr s"
    and rest: "encoder_states_loop enc (Suc i) ls = Inr rest" and st: "states = s # rest"
    by (auto split: sum.splits)
  from py_index_nat[OF item] have item_eq: "item = enc ! i" by simp
  from Cons.prems(2) have "0 \<le> l - 1" by simp
  from py_index_nat[OF s this] have s_eq: "s = enc ! i ! nat (l - 1)" by (simp add: item_eq)
  from Cons.prems(2) have "\<forall>l \<in> set ls. 1 \<le> l" by simp
  from Cons.IH[OF rest this] have ih: "length rest = length ls"
    "\<forall>j < length ls. rest ! j = enc ! (Suc i + j) ! nat (ls ! j - 1)" by simp_all
  have "\<forall>j < length (l # ls). states ! j = enc ! (i + j) ! nat ((l # ls) ! j - 1)"
  proof (intro allI impI)
    fix j assume "j < length (l # ls)"
    then show "states ! j = enc ! (i + j) ! nat ((l # ls) ! j - 1)"
      using s_eq ih(2) by (cases j) (simp_all add: st)
  qed
  then show ?case using ih(1) by (simp add: st)
qed

lemma set_row_result:
  "set_row a i v = Inr a' \<Longrightarrow> length a' = length a \<and> (\<forall>t. t \<noteq> i \<longrightarrow> a' ! t = a ! t)"
  by (auto simp: set_row_def split: if_splits)

lemma linear_steps_result:
  "linear_steps W b seq i a lst = Inr (a', lst') \<Longrightarrow>
     length a' = length a \<and> (\<forall>t. i + length seq \<le> t \<longrightarrow> a' ! t = a ! t)"
proof (induction seq arbitrary: i a lst)
  case Nil
  then show ?case by simp
next
  case (Cons c seq)
  from Cons.prems obtain o_lin a1 where
    r: "set_row a i o_lin = Inr a1"
    and rest: "linear_steps W b seq (Suc i) a1 (lst @ [o_lin]) = Inr (a', lst')"
    by (auto split: sum.splits)
  from set_row_result[OF r] Cons.IH[OF rest] show ?case by simp
qed

lemma length_py_slice_to: "0 \<le> l \<Longrightarrow> length (py_slice_to l xs) \<le> nat l"
  by (simp add: py_slice_to_def)

lemma linear_items_result:
  "linear_items W b x dec ls = Inr (lin, lst) \<Longrightarrow> \<forall>l \<in> set ls. 0 \<le> l \<Longrightarrow>
     length lin = length x
     \<and> (\<forall>i < length x. length (lin ! i) = length (x ! i)
           \<and> (\<forall>t < length (x ! i). nat (ls ! i) \<le> t \<longrightarrow>
                 lin ! i ! t = replicate (length (x ! i ! t)) 0))"
proof (induction x arbitrary: dec ls lin lst)
  case Nil
  then show ?case by simp
next
  case (Cons x_i x)
  from Cons.prems(1) obtain l ls' d_i ds a cl lin' lst' where
    ls: "ls = l # ls'" and dec: "dec = d_i # ds"
    and steps: "linear_steps W b (py_slice_to l d_i) 0 (map (map (\<lambda>_. 0)) x_i) [] = Inr (a, cl)"
    and rest: "linear_items W b x ds ls' = Inr (lin', lst')"
    and lin: "lin = a # lin'"
    by (auto split: list.splits sum.splits prod.splits)
  from Cons.prems(2) ls have l0: "0 \<le> l" and ls0: "\<forall>l \<in> set ls'. 0 \<le> l" by simp_all
  from linear_steps_result[OF steps] have a: "length a = length x_i"
    "\<forall>t. length (py_slice_to l d_i) \<le> t \<longrightarrow> a ! t = map (map (\<lambda>_. 0)) x_i ! t"
    by simp_all
  have a0: "\<forall>t < length x_i. nat l \<le> t \<longrightarrow> a ! t = replicate (length (x_i ! t)) 0"
  proof (intro allI impI)
    fix t assume t: "t < length x_i" "nat l \<le> t"
    with length_py_slice_to[OF l0, of d_i] have "length (py_slice_to l d_i) \<le> t" by simp
    with a(2) have "a ! t = map (map (\<lambda>_. 0)) x_i ! t" by simp
    with t(1) show "a ! t = replicate (length (x_i ! t)) 0" by (simp add: map_replicate_const)
  qed
  from Cons.IH[OF rest ls0] have ih: "length lin' = length x"
    "\<forall>i < length x. length (lin' ! i) = length (x ! i)
           \<and> (\<forall>t < length (x ! i). nat (ls' ! i) \<le> t \<longrightarrow>
                 lin' ! i ! t = replicate (length (x ! i ! t)) 0)"
    by simp_all
  have "\<forall>i < length (x_i # x). length (lin ! i) = length ((x_i # x) ! i)
           \<and> (\<forall>t < length ((x_i # x) ! i). nat (ls ! i) \<le> t \<longrightarrow>
                 lin ! i ! t = replicate (length ((x_i # x) ! i ! t)) 0)"
  proof (intro allI impI)
    fix i assume "i < length (x_i # x)"
    then show "length (lin ! i) = length ((x_i # x) ! i)
           \<and> (\<forall>t < length ((x_i # x) ! i). nat (ls ! i) \<le> t \<longrightarrow>
                 lin ! i ! t = replicate (length ((x_i # x) ! i ! t)) 0)"
      using a(1) a0 ih(2) by (cases i) (simp_all add: lin ls)
  qed
  then show ?case using ih(1) by (simp add: lin)
qed

lemma encdec_result:
  assumes run: "np_encdec_lazydynamic x x_lengths W_encoder b_encoder W_decoder b_decoder
                  W_output b_output maxlength
                = Inr (encoder_states, decoder_output, decoder_output_list)"
    and lens: "\<forall>l \<in> set x_lengths. 1 \<le> l"
  shows "\<exists>encoder_output.
           np_rnn x x_lengths W_encoder b_encoder maxlength = Inr encoder_output
         \<and> length encoder_states = length x_lengths
         \<and> (\<forall>i < length x_lengths.
               encoder_states ! i = encoder_output ! i ! nat (x_lengths ! i - 1))
         \<and> length decoder_output = length x
         \<and> (\<forall>i < length x. length (decoder_output ! i) = length (x ! i)
               \<and> (\<forall>t < length (x ! i). nat (x_lengths ! i) \<le> t \<longrightarrow>
                     decoder_output ! i ! t = replicate (length (x ! i ! t)) 0))"
proof -
  from run obtain m encoder_output decoder_input dec where
    m: "resolve_maxlength maxlength x_lengths = Inr m"
    and enc: "np_rnn x x_lengths W_encoder b_encoder (Some m) = Inr encoder_output"
    and states: "encoder_states_loop encoder_output 0 x_lengths = Inr encoder_states"
    and lin: "linear_items W_output b_output x dec x_lengths
                = Inr (decoder_output, decoder_output_list)"
    unfolding np_encdec_lazydynamic_def by (auto split: sum.splits prod.splits)
  from enc np_rnn_resolved[OF m] have
    "np_rnn x x_lengths W_encoder b_encoder maxlength = Inr encoder_output"
    by simp
  moreover from encoder_states_loop_result[OF states lens] have
    "length encoder_states = length x_lengths"
    "\<forall>i < length x_lengths. encoder_states ! i = encoder_output ! i ! nat (x_lengths ! i - 1)"
    by simp_all
  moreover from lens have "\<forall>l \<in> set x_lengths. 0 \<le> l" by auto
  from linear_items_result[OF lin this] have
    "length decoder_output = length x"
    "\<forall>i < length x. length (decoder_output ! i) = length (x ! i)
         \<and> (\<forall>t < length (x ! i). nat (x_lengths ! i) \<le> t \<longrightarrow>
               decoder_output ! i ! t = replicate (length (x ! i ! t)) 0)"
    by simp_all
  ultimately show ?thesis by blast
qed

lemma np_dot_shape:
  "length v = nrows W \<Longrightarrow> \<exists>d. np_dot v W = Inr d \<and> length d = ncols W"
  by (simp add: np_dot_def)

lemma np_add_shape:
  "length v = length b \<Longrightarrow> \<exists>s. np_add v b = Inr s \<and> length s = length b"
  by (simp add: np_add_def np_broadcast_def)

lemma set_row_shape:
  assumes "has_shape2 a m n" and "i < m" and "length v = n"
  shows "\<exists>a'. set_row a i v = Inr a' \<and> has_shape2 a' m n"
proof -
  from assms have "length (a ! i) = n" by (simp add: has_shape2_def)
  with assms have "set_row a i v = Inr (a[i := v])" by (simp add: set_row_def has_shape2_def)
  moreover from assms have "has_shape2 (a[i := v]) m n"
    by (auto simp: has_shape2_def dest: set_update_subset_insert[THEN subsetD])
  ultimately show ?thesis by blast
qed

lemma rnn_steps_total:
  assumes "nrows W = d + ncols W" and "length b = ncols W"
  shows "\<forall>c \<in> set seq. length c = d \<Longrightarrow> length prev = ncols W \<Longrightarrow>
         has_shape2 out m (ncols W) \<Longrightarrow> i + length seq \<le> m \<Longrightarrow>
         \<exists>out'. rnn_steps W b seq prev i out = Inr out' \<and> has_shape2 out' m (ncols W)"
proof (induction seq arbitrary: prev i out)
  case Nil
  then show ?case by simp
next
  case (Cons c seq)
  from Cons.prems assms have "length (c @ prev) = nrows W" by simp
  from np_dot_shape[OF this] obtain dd where dd: "np_dot (c @ prev) W = Inr dd" "length dd = ncols W"
    by blast
  with assms have "length dd = length b" by simp
  from np_add_shape[OF this] obtain s where s: "np_add dd b = Inr s" "length s = ncols W"
    using assms by auto
  have len: "length (np_tanh s) = ncols W" using s by (simp add: np_tanh_def)
  from Cons.prems have "i < m" by simp
  from set_row_shape[OF Cons.prems(3) this len] obtain out1 where
    out1: "set_row out i (np_tanh s) = Inr out1" "has_shape2 out1 m (ncols W)" by blast
  from Cons.prems have "\<forall>c \<in> set seq. length c = d" "Suc i + length seq \<le> m" by simp_all
  from Cons.IH[OF this(1) len out1(2) this(2)] obtain out' where
    "rnn_steps W b seq (np_tanh s) (Suc i) out1 = Inr out'" "has_shape2 out' m (ncols W)"
    by blast
  with dd s out1 show ?case by (simp add: Let_def)
qed

lemma py_slice_to_set: "set (py_slice_to l xs) \<subseteq> set xs"
  by (auto simp: py_slice_to_def dest: in_set_takeD)

lemma length_py_slice_to_le: "0 \<le> l \<Longrightarrow> l \<le> int m \<Longrightarrow> length (py_slice_to l xs) \<le> m"
  by (simp add: py_slice_to_def)

lemma has_shape2_zeros: "has_shape2 (np_zeros2 m n) m n"
  by (simp add: has_shape2_def np_zeros2_def)

lemma rnn_items_total:
  assumes "nrows W = d + ncols W" and "length b = ncols W"
  shows "\<forall>item \<in> set x. \<forall>c \<in> set item. length c = d \<Longrightarrow> length x \<le> length ls \<Longrightarrow>
         \<forall>l \<in> set ls. 0 \<le> l \<and> l \<le> int m \<Longrightarrow>
         \<exists>outs. rnn_items W b m x ls = Inr outs \<and> has_shape3 outs (length x) m (ncols W)"
proof (induction x arbitrary: ls)
  case Nil
  then show ?case by (simp add: has_shape3_def)
next
  case (Cons item x)
  from Cons.prems(2) obtain l ls' where ls: "ls = l # ls'" by (cases ls) auto
  with Cons.prems have l: "0 \<le> l" "l \<le> int m" by simp_all
  have seq: "\<forall>c \<in> set (py_slice_to l item). length c = d"
    using Cons.prems(1) py_slice_to_set[of l item] by auto
  have "0 + length (py_slice_to l item) \<le> m"
    using length_py_slice_to_le[OF l] by simp
  from rnn_steps_total[OF assms seq _ has_shape2_zeros this, of "replicate (ncols W) 0"]
  obtain out where out: "rnn_steps W b (py_slice_to l item) (replicate (ncols W) 0) 0
      (np_zeros2 m (ncols W)) = Inr out" "has_shape2 out m (ncols W)"
    by auto
  from Cons.prems ls have "\<forall>item \<in> set x. \<forall>c \<in> set item. length c = d" "length x \<le> length ls'"
    "\<forall>l \<in> set ls'. 0 \<le> l \<and> l \<le> int m" by simp_all
  from Cons.IH[OF this] obtain outs where
    outs: "rnn_items W b m x ls' = Inr outs" "has_shape3 outs (length x) m (ncols W)" by blast
  from out outs show ?case by (simp add: ls has_shape3_def)
qed

lemma np_rnn_total:
  assumes "nrows W = d + ncols W" and "length b = ncols W"
    and "has_shape3 x n t d" and "n \<le> length ls" and "0 \<le> m"
    and "\<forall>l \<in> set ls. 0 \<le> l \<and> l \<le> m"
  shows "\<exists>outs. np_rnn x ls W b (Some m) = Inr outs \<and> has_shape3 outs n (nat m) (ncols W)"
proof -
  from assms(3) have rows: "\<forall>item \<in> set x. \<forall>c \<in> set item. length c = d" and n: "length x = n"
    by (auto simp: has_shape3_def has_shape2_def)
  from assms(5,6) have "\<forall>l \<in> set ls. 0 \<le> l \<and> l \<le> int (nat m)" by auto
  from rnn_items_total[OF assms(1,2) rows _ this] assms(4) n assms(5) show ?thesis
    by (auto simp: np_rnn_def resolve_maxlength_def)
qed

lemma encoder_states_loop_total:
  assumes "has_shape3 enc n m h"
  shows "i + length ls \<le> n \<Longrightarrow> \<forall>l \<in> set ls. 1 \<le> l \<and> l \<le> int m \<Longrightarrow>
         \<exists>states. encoder_states_loop enc i ls = Inr states \<and> has_shape2 states (length ls) h"
proof (induction ls arbitrary: i)
  case Nil
  then show ?case by (simp add: has_shape2_def)
next
  case (Cons l ls)
  from Cons.prems assms have i: "i < length enc" by (simp add: has_shape3_def)
  then have item: "py_index enc (int i) = Inr (enc ! i)" by (simp add: py_index_def)
  from i assms have sh: "has_shape2 (enc ! i) m h" by (simp add: has_shape3_def)
  from Cons.prems have l: "1 \<le> l" "l \<le> int m" by simp_all
  with sh have s: "py_index (enc ! i) (l - 1) = Inr (enc ! i ! nat (l - 1))"
    and sl: "length (enc ! i ! nat (l - 1)) = h"
    by (auto simp: py_index_def has_shape2_def)
  from Cons.prems have "Suc i + length ls \<le> n" "\<forall>l \<in> set ls. 1 \<le> l \<and> l \<le> int m" by simp_all
  from Cons.IH[OF this] obtain states where
    "encoder_states_loop enc (Suc i) ls = Inr states" "has_shape2 states (length ls) h" by blast
  with item s sl show ?case by (simp add: has_shape2_def)
qed

lemma np_linear_shape:
  "length c = nrows W \<Longrightarrow> length b = ncols W \<Longrightarrow>
     \<exists>v. np_linear c W b = Inr v \<and> length v = ncols W"
  using np_dot_shape[of c W] np_add_shape[of _ b] by (fastforce simp: np_linear_def)

lemma linear_steps_total:
  assumes "length b = ncols W"
  shows "\<forall>c \<in> set seq. length c = nrows W \<Longrightarrow> has_shape2 a t (ncols W) \<Longrightarrow>
         i + length seq \<le> t \<Longrightarrow> \<exists>r. linear_steps W b seq i a lst = Inr r"
proof (induction seq arbitrary: i a lst)
  case Nil
  then show ?case by simp
next
  case (Cons c seq)
  from Cons.prems have "length c = nrows W" by simp
  from np_linear_shape[OF this assms] obtain v where
    v: "np_linear c W b = Inr v" "length v = ncols W" by blast
  from Cons.prems have "i < t" by simp
  from set_row_shape[OF Cons.prems(2) this v(2)] obtain a1 where
    a1: "set_row a i v = Inr a1" "has_shape2 a1 t (ncols W)" by blast
  from Cons.prems have "\<forall>c \<in> set seq. length c = nrows W" "Suc i + length seq \<le> t" by simp_all
  from Cons.IH[OF this(1) a1(2) this(2), of "lst @ [v]"] v a1 show ?case by simp
qed

lemma linear_items_total:
  assumes "length b = ncols W"
  shows "\<forall>item \<in> set x. has_shape2 item t (ncols W) \<Longrightarrow>
         length x \<le> length dec \<Longrightarrow> length x \<le> length ls \<Longrightarrow>
         \<forall>item \<in> set dec. \<forall>c \<in> set item. length c = nrows W \<Longrightarrow>
         \<forall>l \<in> set ls. 0 \<le> l \<and> l \<le> int t \<Longrightarrow>
         \<exists>r. linear_items W b x dec ls = Inr r"
proof (induction x arbitrary: dec ls)
  case Nil
  then show ?case by simp
next
  case (Cons item x)
  from Cons.prems(2) obtain d_i ds where dec: "dec = d_i # ds" by (cases dec) auto
  from Cons.prems(3) obtain l ls' where ls: "ls = l # ls'" by (cases ls) auto
  from Cons.prems ls have l: "0 \<le> l" "l \<le> int t" by simp_all
  have seq: "\<forall>c \<in> set (py_slice_to l d_i). length c = nrows W"
    using Cons.prems(4) dec py_slice_to_set[of l d_i] by auto
  from Cons.prems(1) have "has_shape2 (map (map (\<lambda>_. 0)) item) t (ncols W)"
    by (auto simp: has_shape2_def)
  moreover have "0 + length (py_slice_to l d_i) \<le> t"
    using length_py_slice_to_le[OF l] by simp
  ultimately obtain r1 where
    r1: "linear_steps W b (py_slice_to l d_i) 0 (map (map (\<lambda>_. 0)) item) [] = Inr r1"
    using linear_steps_total[OF assms seq] by blast
  from Cons.prems dec ls have "\<forall>item \<in> set x. has_shape2 item t (ncols W)"
    "length x \<le> length ds" "length x \<le> length ls'"
    "\<forall>item \<in> set ds. \<forall>c \<in> set item. length c = nrows W"
    "\<forall>l \<in> set ls'. 0 \<le> l \<and> l \<le> int t" by simp_all
  from Cons.IH[OF this] obtain r2 where "linear_items W b x ds ls' = Inr r2" by blast
  with r1 show ?case by (cases r1; cases r2) (simp add: dec ls)
qed


lemma repeat_states_total:
  assumes "has_shape2 states n h" and "1 \<le> m" and "0 < h"
  shows "\<exists>inp. repeat_states states m h = Inr inp \<and> has_shape3 inp n (nat m) h"
  using assms by (auto simp: repeat_states_def has_shape3_def has_shape2_def)

lemma encdec_total:
  assumes x: "has_shape3 x (length x_lengths) t d"
    and enc: "nrows W_encoder = d + ncols W_encoder" "length b_encoder = ncols W_encoder"
      "0 < ncols W_encoder"
    and dec: "nrows W_decoder = ncols W_encoder + ncols W_decoder"
      "length b_decoder = ncols W_decoder"
    and out: "nrows W_output = ncols W_decoder" "ncols W_output = d" "length b_output = d"
    and m: "resolve_maxlength maxlength x_lengths = Inr m" "1 \<le> m"
    and lens: "\<forall>l \<in> set x_lengths. 1 \<le> l \<and> l \<le> m \<and> l \<le> int t"
  shows "\<exists>r. np_encdec_lazydynamic x x_lengths W_encoder b_encoder W_decoder b_decoder
               W_output b_output maxlength = Inr r"
proof -
  let ?n = "length x_lengths"
  from m(2) have m0: "0 \<le> m" by simp
  from lens have lens0: "\<forall>l \<in> set x_lengths. 0 \<le> l \<and> l \<le> m"
    and lens1: "\<forall>l \<in> set x_lengths. 1 \<le> l \<and> l \<le> int (nat m)"
    and lenst: "\<forall>l \<in> set x_lengths. 0 \<le> l \<and> l \<le> int t"
    by auto
  from np_rnn_total[OF enc(1,2) x _ m0 lens0] obtain e_out where
    e_out: "np_rnn x x_lengths W_encoder b_encoder (Some m) = Inr e_out"
      "has_shape3 e_out ?n (nat m) (ncols W_encoder)" by auto
  from encoder_states_loop_total[OF e_out(2), of 0 x_lengths] lens1 obtain states where
    states: "encoder_states_loop e_out 0 x_lengths = Inr states"
      "has_shape2 states ?n (ncols W_encoder)" by auto
  from repeat_states_total[OF states(2) m(2) enc(3)] obtain inp where
    inp: "repeat_states states m (ncols W_encoder) = Inr inp"
      "has_shape3 inp ?n (nat m) (ncols W_encoder)" by blast
  from np_rnn_total[OF dec(1,2) inp(2) _ m0 lens0] obtain d_out where
    d_out: "np_rnn inp x_lengths W_decoder b_decoder (Some m) = Inr d_out"
      "has_shape3 d_out ?n (nat m) (ncols W_decoder)" by auto
  from x out(2) have xs: "\<forall>item \<in> set x. has_shape2 item t (ncols W_output)" "length x = ?n"
    by (auto simp: has_shape3_def)
  from d_out(2) out(1) have ds: "\<forall>item \<in> set d_out. \<forall>c \<in> set item. length c = nrows W_output"
    "length d_out = ?n"
    by (auto simp: has_shape3_def has_shape2_def)
  from out(2,3) have b: "length b_output = ncols W_output" by simp
  from linear_items_total[OF b xs(1) _ _ ds(1) lenst] xs(2) ds(2) obtain r where
    r: "linear_items W_output b_output x d_out x_lengths = Inr r" by auto
  from m(1) e_out(1) states(1) inp(1) d_out(1) r show ?thesis
    unfolding np_encdec_lazydynamic_def by (cases r) simp
qed

lemmas np_eval = np_rnn_def resolve_maxlength_def np_zeros2_def np_dot_def np_add_def
  np_broadcast_def np_tanh_def set_row_def py_slice_to_def py_index_def repeat_states_def
  np_linear_def replicate_numeral_unfold Let_def

lemma encdec_demo_rnn:
  "np_rnn [[[1], [0]], [[2], [3]]] [1, 2] demo_W_zero [0] (Some 2) = Inr [[[0], [0]], [[0], [0]]]"
  by (simp add: np_eval demo_W_zero_def)

lemma encdec_demo_rnn_decoder:
  "np_rnn [[[0], [0]], [[0], [0]]] [1, 2] demo_W_zero [0] (Some 2) = Inr [[[0], [0]], [[0], [0]]]"
  by (simp add: np_eval demo_W_zero_def)

lemma encdec_demo:
  "np_encdec_lazydynamic [[[1], [0]], [[2], [3]]] [1, 2] demo_W_zero [0] demo_W_zero [0]
     demo_W_output [5] (Some 2)
   = Inr ([[0], [0]], [[[5], [0]], [[5], [5]]], [[[5]], [[5], [5]]])"
  unfolding np_encdec_lazydynamic_def
  by (simp add: encdec_demo_rnn encdec_demo_rnn_decoder resolve_maxlength_def py_index_def
      repeat_states_def replicate_numeral_unfold Let_def demo_W_zero_def[THEN arg_cong, of ncols]
      np_linear_def np_dot_def np_add_def np_broadcast_def set_row_def py_slice_to_def
      demo_W_output_def)

text \<open>
  Claim C2. Whenever \<open>np_encdec_lazydynamic\<close> returns on lengths that are all at least 1
  (a length above \<open>maxlength\<close> makes it raise \<open>IndexError\<close>), the encoder RNN has
  returned too, row \<open>i\<close> of the encoder states is the encoder output of item \<open>i\<close> at step
  \<open>x_lengths[i] - 1\<close>, and the decoder output has the shape of \<open>x\<close> and is the zero vector
  at every step \<open>t \<ge> x_lengths[i]\<close> of every item \<open>i\<close>. And it does return when the
  batch has one item of \<open>t\<close> rows of length \<open>d\<close> per length, the weights fit these
  dimensions, and every length is between 1 and both \<open>maxlength\<close> and \<open>t\<close>.
\<close>

theorem encdec_states_and_mask:
  "(np_encdec_lazydynamic x x_lengths W_encoder b_encoder W_decoder b_decoder W_output b_output
       maxlength = Inr (encoder_states, decoder_output, decoder_output_list)
     \<and> (\<forall>l \<in> set x_lengths. 1 \<le> l) \<longrightarrow>
     (\<exists>encoder_output.
           np_rnn x x_lengths W_encoder b_encoder maxlength = Inr encoder_output
         \<and> length encoder_states = length x_lengths
         \<and> (\<forall>i < length x_lengths.
               encoder_states ! i = encoder_output ! i ! nat (x_lengths ! i - 1))
         \<and> length decoder_output = length x
         \<and> (\<forall>i < length x. length (decoder_output ! i) = length (x ! i)
               \<and> (\<forall>t < length (x ! i). nat (x_lengths ! i) \<le> t \<longrightarrow>
                     decoder_output ! i ! t = replicate (length (x ! i ! t)) 0))))
   \<and> (has_shape3 x (length x_lengths) t d
       \<and> nrows W_encoder = d + ncols W_encoder \<and> length b_encoder = ncols W_encoder
       \<and> 0 < ncols W_encoder
       \<and> nrows W_decoder = ncols W_encoder + ncols W_decoder
       \<and> length b_decoder = ncols W_decoder
       \<and> nrows W_output = ncols W_decoder \<and> ncols W_output = d \<and> length b_output = d
       \<and> resolve_maxlength maxlength x_lengths = Inr m \<and> 1 \<le> m
       \<and> (\<forall>l \<in> set x_lengths. 1 \<le> l \<and> l \<le> m \<and> l \<le> int t) \<longrightarrow>
       (\<exists>r. np_encdec_lazydynamic x x_lengths W_encoder b_encoder W_decoder b_decoder
               W_output b_output maxlength = Inr r))"
  using encdec_result[of x x_lengths W_encoder b_encoder W_decoder b_decoder W_output b_output
      maxlength encoder_states decoder_output decoder_output_list]
    encdec_total[of x x_lengths t d W_encoder b_encoder W_decoder b_decoder W_output b_output
      maxlength m]
  by blast

theorem encdec_states_and_mask_witness:
  "np_encdec_lazydynamic [[[1], [0]], [[2], [3]]] [1, 2] demo_W_zero [0] demo_W_zero [0]
     demo_W_output [5] (Some 2)
   = Inr ([[0], [0]], [[[5], [0]], [[5], [5]]], [[[5]], [[5], [5]]])
   \<and> [[[5], [0]], [[5], [5]]] ! 0 ! 1 = replicate (length ([[[1], [0]], [[2], [3]]] ! 0 ! 1)) (0::real)
   \<and> (\<exists>r. np_encdec_lazydynamic [[[1], [0]], [[2], [3]]] [1, 2] demo_W_zero [0] demo_W_zero [0]
          demo_W_output [5] (Some 2) = Inr r)"
  using encdec_states_and_mask[of "[[[1], [0]], [[2], [3]]]" "[1, 2]" demo_W_zero "[0]"
      demo_W_zero "[0]" demo_W_output "[5]" "Some 2" "[[0], [0]]" "[[[5], [0]], [[5], [5]]]"
      "[[[5]], [[5], [5]]]" 2 1 2] encdec_demo
  by (simp add: has_shape3_def has_shape2_def demo_W_zero_def demo_W_output_def
      resolve_maxlength_def)

section \<open>Properties of the Siamese side\<close>

text \<open>
  Claim C4. \<open>build_siamese_rnn_side\<close> makes exactly two builder calls: first the
  bidirectional multi-layer RNN builder if the flag is set and the unidirectional one
  otherwise, each with \<open>x\<close>, \<open>x_lengths\<close>, \<open>rnn_n_hiddens\<close>, \<open>rnn_type\<close> and \<open>rnn_keep_prob\<close>;
  then the feedforward builder, on the final RNN state (its \<open>.h\<close> component when
  \<open>rnn_type\<close> is \<open>"lstm"\<close>) with \<open>ff_n_hiddens\<close> and \<open>ff_keep_prob\<close>, whose result is the
  side's output.
\<close>

theorem siamese_side_builders:
  "build_siamese_rnn_side tf x x_lengths rnn_n_hiddens ff_n_hiddens rnn_type rnn_keep_prob
       ff_keep_prob bidirectional =
     (let final_state =
            snd (if bidirectional then
                   build_bidirectional_multi_rnn tf x x_lengths rnn_n_hiddens rnn_type rnn_keep_prob
                 else build_multi_rnn tf x x_lengths rnn_n_hiddens rnn_type rnn_keep_prob);
          state = (if rnn_type = ''lstm'' then state_h tf final_state else final_state)
      in (build_feedforward tf state ff_n_hiddens ff_keep_prob,
          [if bidirectional then
             Call_build_bidirectional_multi_rnn x x_lengths rnn_n_hiddens rnn_type rnn_keep_prob
           else Call_build_multi_rnn x x_lengths rnn_n_hiddens rnn_type rnn_keep_prob,
           Call_build_feedforward state ff_n_hiddens ff_keep_prob]))
   \<and> (Call_build_bidirectional_multi_rnn x x_lengths rnn_n_hiddens rnn_type rnn_keep_prob
         \<in> set (snd (build_siamese_rnn_side tf x x_lengths rnn_n_hiddens ff_n_hiddens rnn_type
                        rnn_keep_prob ff_keep_prob bidirectional))) = bidirectional
   \<and> (Call_build_multi_rnn x x_lengths rnn_n_hiddens rnn_type rnn_keep_prob
         \<in> set (snd (build_siamese_rnn_side tf x x_lengths rnn_n_hiddens ff_n_hiddens rnn_type
                        rnn_keep_prob ff_keep_prob bidirectional))) = (\<not> bidirectional)"
  by (simp add: build_siamese_rnn_side_def Let_def split: prod.splits)

theorem siamese_side_builders_witness:
  "build_siamese_rnn_side demo_tflego 1 (7::int) [400, 400, 400] [130] ''lstm'' 1 1 True
     = (1020, [Call_build_bidirectional_multi_rnn 1 7 [400, 400, 400] ''lstm'' 1,
               Call_build_feedforward 102 [130] 1])
   \<and> build_siamese_rnn_side demo_tflego 1 (7::int) [400, 400, 400] [130] ''gru'' 1 1 False
     = (20, [Call_build_multi_rnn 1 7 [400, 400, 400] ''gru'' 1,
             Call_build_feedforward 2 [130] 1])"
  using siamese_side_builders[of demo_tflego 1 7 "[400, 400, 400]" "[130]" "''lstm''" 1 1 True]
    siamese_side_builders[of demo_tflego 1 7 "[400, 400, 400]" "[130]" "''gru''" 1 1 False]
  by (simp add: demo_tflego_def Let_def)

section \<open>Properties of the saved files\<close>

lemma path_join_nonempty: "a \<noteq> [] \<Longrightarrow> path_join a b \<noteq> []"
  by (auto simp: path_join_def)

lemma path_join_last_component:
  assumes "a \<noteq> []" and "b \<noteq> []" and "hd b \<noteq> CHR ''/''"
  shows "\<exists>prefix. path_join a b = prefix @ ''/'' @ b"
proof (cases "last a = CHR ''/''")
  case True
  with assms(1) have "a = butlast a @ ''/''"
    by (metis append_butlast_last_id)
  then have "a @ b = butlast a @ ''/'' @ b"
    by (metis append_assoc)
  with True assms show ?thesis by (auto simp: path_join_def)
next
  case False
  with assms show ?thesis by (auto simp: path_join_def)
qed

lemma path_join_file:
  assumes "d \<noteq> []" and "last d \<noteq> CHR ''/''" and "f \<noteq> []" and "hd f \<noteq> CHR ''/''"
  shows "path_join d f = d @ ''/'' @ f"
  using assms by (simp add: path_join_def)

text \<open>
  Claim C9. When the three path options are strings, the model directory can be made, the
  digest is 32 characters without a slash and training returns the record dictionary, the
  script writes \<open>record_dict.pkl\<close> with the pickled record dictionary and then
  \<open>options_dict.pkl\<close> with the pickled options (with \<open>n_input\<close> added) inside the model
  directory, whatever happens afterwards; and the path of the model directory ends in
  \<open>/\<close> and the first 10 characters of the MD5 digest of the sorted options items.
\<close>

theorem train_siamese_saves_pickles:
  assumes dir: "model_dir_of env options_dict = Inr model_dir"
    and mk: "model_dir_isdir env model_dir \<or> os_makedirs env model_dir = None"
    and digest: "length (md5_hexdigest env (repr_sorted_items env options_dict)) = 32"
      "CHR ''/'' \<notin> set (md5_hexdigest env (repr_sorted_items env options_dict))"
    and trained: "train env (options_dict(''n_input'' \<mapsto> PyInt 13)) = Inr record_dict"
  shows "(\<exists>before after. fst (train_siamese env options_dict) =
            before @
            [Write_file (model_dir @ ''/record_dict.pkl'') (pickle_dumps_record env record_dict),
             Write_file (model_dir @ ''/options_dict.pkl'')
               (pickle_dumps_options env (options_dict(''n_input'' \<mapsto> PyInt 13)))] @ after)
       \<and> (\<exists>prefix. model_dir =
             prefix @ ''/'' @ take 10 (md5_hexdigest env (repr_sorted_items env options_dict)))"
proof -
  define h where "h = take 10 (md5_hexdigest env (repr_sorted_items env options_dict))"
  have h_len: "length h = 10" using digest(1) by (simp add: h_def)
  then have h_ne: "h \<noteq> []" by auto
  have h_set: "CHR ''/'' \<notin> set h" using digest(2) by (auto simp: h_def dest: in_set_takeD)
  with h_ne have h_hd: "hd h \<noteq> CHR ''/''" and h_last: "last h \<noteq> CHR ''/''"
    by (metis hd_in_set, metis last_in_set)
  from dir obtain first_part last_part where
    md0: "model_dir = path_join (path_join (path_join ''models'' first_part) last_part) h"
    by (auto simp: model_dir_of_def h_def Let_def split: sum.splits)
  define p where "p = path_join (path_join ''models'' first_part) last_part"
  have p: "p \<noteq> []"
    unfolding p_def by (intro path_join_nonempty) simp
  have md: "model_dir = path_join p h"
    by (simp add: md0 p_def)
  from path_join_last_component[OF p h_ne h_hd] obtain prefix where
    pre: "model_dir = prefix @ ''/'' @ h" by (auto simp: md)
  then have md_ne: "model_dir \<noteq> []" and md_last: "last model_dir \<noteq> CHR ''/''"
    using h_ne h_last by simp_all
  have f1: "path_join model_dir ''record_dict.pkl'' = model_dir @ ''/record_dict.pkl''"
    using path_join_file[OF md_ne md_last, of "''record_dict.pkl''"] by simp
  have f2: "path_join model_dir ''options_dict.pkl'' = model_dir @ ''/options_dict.pkl''"
    using path_join_file[OF md_ne md_last, of "''options_dict.pkl''"] by simp
  have "\<exists>before after. fst (train_siamese env options_dict) =
            before @
            [Write_file (model_dir @ ''/record_dict.pkl'') (pickle_dumps_record env record_dict),
             Write_file (model_dir @ ''/options_dict.pkl'')
               (pickle_dumps_options env (options_dict(''n_input'' \<mapsto> PyInt 13)))] @ after"
  proof (cases "final_validation env (options_dict(''n_input'' \<mapsto> PyInt 13))")
    case (Inl e)
    with dir mk trained f1 f2 have "fst (train_siamese env options_dict) =
        (if \<not> model_dir_isdir env model_dir then [Makedirs model_dir] else []) @
        [Write_file (model_dir @ ''/record_dict.pkl'') (pickle_dumps_record env record_dict),
         Write_file (model_dir @ ''/options_dict.pkl'')
           (pickle_dumps_options env (options_dict(''n_input'' \<mapsto> PyInt 13)))] @ []"
      by (auto simp: train_siamese_def Let_def)
    then show ?thesis by blast
  next
    case (Inr ap_text)
    with dir mk trained f1 f2 have "fst (train_siamese env options_dict) =
        (if \<not> model_dir_isdir env model_dir then [Makedirs model_dir] else []) @
        [Write_file (model_dir @ ''/record_dict.pkl'') (pickle_dumps_record env record_dict),
         Write_file (model_dir @ ''/options_dict.pkl'')
           (pickle_dumps_options env (options_dict(''n_input'' \<mapsto> PyInt 13)))] @
        [Write_file (path_join model_dir ''val_ap.txt'') ap_text]"
      by (auto simp: train_siamese_def Let_def)
    then show ?thesis by blast
  qed
  with pre show ?thesis by (auto simp: h_def)
qed

lemma demo_model_dir:
  "model_dir_of demo_env demo_options = Inr ''models/buckeye.mfcc.gt/train_siamese/d41d8cd98f''"
  by (simp add: model_dir_of_def demo_env_def demo_options_def get_str_def path_join_def
      path_split_def rstrip_slash_def Let_def)

theorem train_siamese_saves_pickles_witness:
  "(\<exists>before after. fst (train_siamese demo_env demo_options) =
      before @
      [Write_file ''models/buckeye.mfcc.gt/train_siamese/d41d8cd98f/record_dict.pkl'' ''R'',
       Write_file ''models/buckeye.mfcc.gt/train_siamese/d41d8cd98f/options_dict.pkl'' ''O''] @ after)
   \<and> (\<exists>prefix. ''models/buckeye.mfcc.gt/train_siamese/d41d8cd98f'' = prefix @ ''/'' @ ''d41d8cd98f'')"
  using train_siamese_saves_pickles[OF demo_model_dir, of 0]
  by (simp add: demo_env_def)

end
